theory Spec2Isabelle
  imports Main "HOL-Library.Word"
begin

section \<open>Data model of the device-mapper core (dm.c)\<close>

text \<open>
  The embedding follows \<^verbatim>\<open>driver/device-mapper/dm.c\<close>.  Of its header \<^verbatim>\<open>dm.h\<close> and of
  the table builder \<^verbatim>\<open>dm-table.c\<close> only the uses in dm.c are known, so

  \<^item> \<^verbatim>\<open>offset_t\<close> is an unsigned machine word of any width (\<open>'a word\<close>);
  \<^item> \<^verbatim>\<open>KEYS_PER_NODE\<close> is a parameter \<open>K\<close> of every function that walks the index;
  \<^item> the structures have the fields that dm.c reads and writes.

  Pointers: a \<^verbatim>\<open>struct mapped_device *\<close> is the minor of the slot of \<^verbatim>\<open>_devs\<close> that holds
  the device (\<^verbatim>\<open>alloc_dev\<close> stores every device at \<^verbatim>\<open>_devs[MINOR(md->dev)]\<close> and nothing
  else writes either side); a \<^verbatim>\<open>struct dm_table *\<close> and a \<^verbatim>\<open>struct io_hook *\<close> are
  addresses into two stores of the state.  A function that dereferences a pointer to
  nothing has no defined behaviour in C and returns \<open>None\<close> here.

  Calls that leave the driver (completion routines, the wait queue, the block layer,
  the slab allocator's free) are appended to the \<open>trace\<close> of the state, in call order.
  What an allocator returns is an argument of the function that allocates.

  The lock \<^verbatim>\<open>_dev_lock\<close> is not a part of the state.  A call runs as one step, except
  where it sleeps (\<^verbatim>\<open>dm_suspend\<close>) or gives the lock up between two sections
  (\<^verbatim>\<open>dm_deactivate\<close>): there, what other threads do meanwhile is an argument.
\<close>

datatype errno = ENXIO | EPERM | EINVAL | ENOMEM | EFAULT

text \<open>
  \<^verbatim>\<open>MAX_DEVICES\<close> is defined in dm.c; \<^verbatim>\<open>BLOCK_SIZE\<close> and \<^verbatim>\<open>READ\<close> are the kernel's.
\<close>

definition MAX_DEVICES :: nat where
  "MAX_DEVICES = 64"

definition BLOCK_SIZE :: int where
  "BLOCK_SIZE = 1024"

definition READ :: int where
  "READ = 0"

text \<open>\<^verbatim>\<open>MINOR\<close> of a 2.4 \<^verbatim>\<open>kdev_t\<close>: the low eight bits.\<close>

definition MINOR :: "nat \<Rightarrow> nat" where
  "MINOR dev = dev mod 256"

text \<open>
  \<^verbatim>\<open>bh->b_end_io\<close> is a function pointer: null, the driver's own \<^verbatim>\<open>dec_pending\<close>, or a
  completion routine of the submitter (numbered).  \<^verbatim>\<open>bh->b_private\<close> is an address,
  \<open>0\<close> for null.
\<close>

datatype end_io = No_end_io | Dec_pending | Caller_end_io nat

record 'o buffer_head =
  b_blocknr :: 'o
  b_dev :: nat
  b_rdev :: nat
  b_size :: nat
  b_rsector :: 'o
  b_end_io :: end_io
  b_private :: nat

datatype target_flag = TF_BMAP

text \<open>
  A target type's \<^verbatim>\<open>map\<close> and \<^verbatim>\<open>err\<close> receive the buffer head by pointer: \<open>tt_map\<close>
  returns its result together with the buffer head as the target left it; \<open>tt_err\<close>
  is \<open>None\<close> for a null \<^verbatim>\<open>err\<close>.
\<close>

record 'o target_type =
  tt_map :: "'o buffer_head \<Rightarrow> int \<Rightarrow> nat \<Rightarrow> int \<times> 'o buffer_head"
  tt_err :: "('o buffer_head \<Rightarrow> int \<Rightarrow> nat \<Rightarrow> int) option"
  tt_flags :: "target_flag set"

record 'o target =
  tgt_type :: "'o target_type"
  tgt_private :: nat

text \<open>
  \<open>index t ! l\<close> is the key array of level \<open>l\<close> of the btree (\<^verbatim>\<open>t->index[l]\<close>);
  \<open>highs t\<close> holds the \<^verbatim>\<open>num_targets\<close> entries of \<^verbatim>\<open>t->highs\<close>.
\<close>

record 'o dm_table =
  depth :: nat
  index :: "'o list list"
  highs :: "'o list"
  targets :: "'o target list"
  hardsect_size :: int
  pending :: int

definition num_targets :: "'o dm_table \<Rightarrow> nat" where
  "num_targets t = length (highs t)"

record io_hook =
  ih_table :: nat
  ih_target :: nat
  ih_rw :: int
  ih_end_io :: end_io
  ih_context :: nat

text \<open>The \<^verbatim>\<open>next\<close> link of a \<^verbatim>\<open>struct deferred_io\<close> is the tail of a list.\<close>

record 'o deferred_io =
  di_bh :: "'o buffer_head"
  di_rw :: int

datatype dm_flag = DM_ACTIVE

record 'o mapped_device =
  name :: string
  use_count :: int
  state :: "dm_flag set"
  map_table :: "nat option"
  deferred :: "'o deferred_io list"
  devfs_entry :: bool

datatype 'o action =
    End_io end_io "'o buffer_head" int
  | Wake_up nat
  | Generic_make_request int "'o buffer_head"
  | Register_disk nat int
  | Kmem_cache_free nat
  | Fsync_dev nat
  | Devfs_register string nat
  | Devfs_unregister nat

record 'o dm =
  devs :: "nat \<Rightarrow> 'o mapped_device option"
  tables :: "nat \<Rightarrow> 'o dm_table option"
  io_hooks :: "nat \<Rightarrow> io_hook option"
  block_size :: "nat \<Rightarrow> int"
  blksize_size :: "nat \<Rightarrow> int"
  hardsect_sizes :: "nat \<Rightarrow> int"
  trace :: "'o action list"

text \<open>User memory of the \<^verbatim>\<open>LV_BMAP\<close> ioctl (\<^verbatim>\<open>struct lv_bmap\<close>).\<close>

record 'o lv_bmap =
  lv_block :: 'o
  lv_dev :: nat

section \<open>Helpers\<close>

definition emit :: "'o action \<Rightarrow> 'o dm \<Rightarrow> 'o dm" where
  "emit a s = s\<lparr>trace := trace s @ [a]\<rparr>"

text \<open>An assignment to fields of \<^verbatim>\<open>*md\<close>.\<close>

definition upd_dev :: "nat \<Rightarrow> ('o mapped_device \<Rightarrow> 'o mapped_device) \<Rightarrow> 'o dm \<Rightarrow> 'o dm" where
  "upd_dev md f s = s\<lparr>devs := (devs s)(md := map_option f (devs s md))\<rparr>"

text \<open>An assignment to fields of a table in the store.\<close>

definition upd_table :: "nat \<Rightarrow> ('o dm_table \<Rightarrow> 'o dm_table) \<Rightarrow> 'o dm \<Rightarrow> 'o dm" where
  "upd_table t f s = s\<lparr>tables := (tables s)(t := map_option f (tables s t))\<rparr>"

text \<open>
  Modelled from the spec: \<^verbatim>\<open>is_active\<close> of dm.h, which is missing.  The device is in
  state ACTIVE: the bit that dm.c itself reads with \<^verbatim>\<open>test_bit(DM_ACTIVE, &md->state)\<close>
  is set.
\<close>

definition is_active :: "'o mapped_device \<Rightarrow> bool" where
  "is_active md \<longleftrightarrow> DM_ACTIVE \<in> state md"

definition free_io_hook :: "nat \<Rightarrow> 'o dm \<Rightarrow> 'o dm" where
  "free_io_hook ih s = emit (Kmem_cache_free ih) (s\<lparr>io_hooks := (io_hooks s)(ih := None)\<rparr>)"

text \<open>
  \<^verbatim>\<open>buffer_IO_error\<close> of the block layer: the request's completion routine is called
  with \<^verbatim>\<open>uptodate = 0\<close>.
\<close>

definition buffer_IO_error :: "'o buffer_head \<Rightarrow> 'o dm \<Rightarrow> 'o dm" where
  "buffer_IO_error bh s = emit (End_io (b_end_io bh) bh 0) s"

text \<open>The conversion of an \<^verbatim>\<open>offset_t\<close> to a 32-bit \<^verbatim>\<open>int\<close>.\<close>

definition int_of_offset :: "('a::len) word \<Rightarrow> int" where
  "int_of_offset w = sint (ucast w :: 32 word)"

section \<open>Block device functions\<close>

definition dm_blk_open :: "nat \<Rightarrow> 'o dm \<Rightarrow> (errno + unit) \<times> 'o dm" where
  "dm_blk_open i_rdev s =
     (let minor = MINOR i_rdev in
      if minor \<ge> MAX_DEVICES then (Inl ENXIO, s)
      else case devs s minor of
        None \<Rightarrow> (Inl ENXIO, s)
      | Some md \<Rightarrow>
          if \<not> is_active md then (Inl ENXIO, s)
          else (Inr (), upd_dev minor (\<lambda>d. d\<lparr>use_count := use_count d + 1\<rparr>) s))"

definition dm_blk_close :: "nat \<Rightarrow> 'o dm \<Rightarrow> (errno + unit) \<times> 'o dm" where
  "dm_blk_close i_rdev s =
     (let minor = MINOR i_rdev in
      if minor \<ge> MAX_DEVICES then (Inl ENXIO, s)
      else case devs s minor of
        None \<Rightarrow> (Inl ENXIO, s)
      | Some md \<Rightarrow>
          if use_count md < 1 then (Inl ENXIO, s)
          else (Inr (), upd_dev minor (\<lambda>d. d\<lparr>use_count := use_count d - 1\<rparr>) s))"

section \<open>The completion routine and the deferred list\<close>

text \<open>
  \<open>dec_pending bh uptodate s\<close>: the hook is \<^verbatim>\<open>bh->b_private\<close>; its target is entry
  \<open>ih_target\<close> of the table \<open>ih_table\<close>.  The result is the buffer head and the state at
  return.
\<close>

definition dec_pending ::
  "'o buffer_head \<Rightarrow> int \<Rightarrow> 'o dm \<Rightarrow> ('o buffer_head \<times> 'o dm) option" where
  "dec_pending bh uptodate s =
     (case io_hooks s (b_private bh) of
        None \<Rightarrow> None
      | Some ih \<Rightarrow>
         (case tables s (ih_table ih) of
            None \<Rightarrow> None
          | Some tb \<Rightarrow>
             if ih_target ih \<ge> length (targets tb) then None
             else
               let ti = targets tb ! ih_target ih in
               if uptodate = 0 \<and>
                  (case tt_err (tgt_type ti) of
                     None \<Rightarrow> False
                   | Some err \<Rightarrow> err bh (ih_rw ih) (tgt_private ti) \<noteq> 0)
               then Some (bh, s)
               else
                 let s1 = upd_table (ih_table ih) (\<lambda>t. t\<lparr>pending := pending t - 1\<rparr>) s;
                     s2 = (if pending tb - 1 = 0 then emit (Wake_up (ih_table ih)) s1 else s1);
                     bh1 = bh\<lparr>b_end_io := ih_end_io ih, b_private := ih_context ih\<rparr>;
                     s3 = free_io_hook (b_private bh) s2
                 in Some (bh1, emit (End_io (b_end_io bh1) bh1 uptodate) s3)))"

text \<open>
  \<open>queue_io md bh rw di s\<close>: \<open>di\<close> tells whether \<^verbatim>\<open>alloc_deferred\<close> returned an entry.
  \<open>Inl ENOMEM\<close> is the return value \<^verbatim>\<open>-ENOMEM\<close>, \<open>Inr r\<close> the return value \<open>r\<close>.
\<close>

definition queue_io ::
  "nat \<Rightarrow> 'o buffer_head \<Rightarrow> int \<Rightarrow> bool \<Rightarrow> 'o dm \<Rightarrow> ((errno + nat) \<times> 'o dm) option" where
  "queue_io md bh rw di s =
     (if \<not> di then Some (Inl ENOMEM, s)
      else case devs s md of
        None \<Rightarrow> None
      | Some d \<Rightarrow>
          if DM_ACTIVE \<in> state d then Some (Inr 0, s)
          else Some (Inr 1,
                 upd_dev md (\<lambda>d. d\<lparr>deferred := \<lparr>di_bh = bh, di_rw = rw\<rparr> # deferred d\<rparr>) s))"

section \<open>Mapping a request\<close>

text \<open>
  \<open>map_buffer md bh rw leaf ih s\<close>: \<open>ih\<close> is the address \<^verbatim>\<open>alloc_io_hook\<close> returned, \<open>0\<close>
  when the allocation failed.
\<close>

definition map_buffer ::
  "nat \<Rightarrow> 'o buffer_head \<Rightarrow> int \<Rightarrow> nat \<Rightarrow> nat \<Rightarrow> 'o dm \<Rightarrow>
     (int \<times> 'o buffer_head \<times> 'o dm) option" where
  "map_buffer md bh rw leaf ih s =
     (case devs s md of
        None \<Rightarrow> None
      | Some d \<Rightarrow>
         (case map_table d of
            None \<Rightarrow> None
          | Some t \<Rightarrow>
             (case tables s t of
                None \<Rightarrow> None
              | Some tb \<Rightarrow>
                 if leaf \<ge> length (targets tb) then None
                 else
                   let ti = targets tb ! leaf;
                       fn = tt_map (tgt_type ti);
                       context = tgt_private ti
                   in
                   if ih = 0 then Some (0, bh, s)
                   else
                     let s1 = s\<lparr>io_hooks := (io_hooks s)(ih \<mapsto>
                                 \<lparr>ih_table = t, ih_target = leaf, ih_rw = rw,
                                  ih_end_io = b_end_io bh, ih_context = b_private bh\<rparr>)\<rparr>;
                         (r, bh1) = fn bh rw context
                     in
                     if r > 0 then
                       Some (1, bh1\<lparr>b_end_io := Dec_pending, b_private := ih\<rparr>,
                             upd_table t (\<lambda>t. t\<lparr>pending := pending t + 1\<rparr>) s1)
                     else if r = 0 then Some (1, bh1, free_io_hook ih s1)
                     else Some (0, bh1, free_io_hook ih s1))))"

subsection \<open>The btree walk\<close>

text \<open>
  Modelled from the spec: \<^verbatim>\<open>get_child\<close> and \<^verbatim>\<open>get_node\<close> of dm.h, which is missing.
  The tree has a fixed fanout of \<open>K\<close> keys, so \<open>K + 1\<close> children, per node, and the
  position of key \<open>k\<close> of node \<open>n\<close> in the flat array of a level is \<open>K * n + k\<close>.
  \<open>get_node K t l n k\<close> is the read \<^verbatim>\<open>get_node(t, l, n)[k]\<close>, \<open>None\<close> outside the
  array of the level.
\<close>

definition get_child :: "nat \<Rightarrow> nat \<Rightarrow> nat \<Rightarrow> nat" where
  "get_child K n k = n * (K + 1) + k"

definition get_node :: "nat \<Rightarrow> 'o dm_table \<Rightarrow> nat \<Rightarrow> nat \<Rightarrow> nat \<Rightarrow> 'o option" where
  "get_node K t l n k =
     (if l < length (index t) \<and> n * K + k < length (index t ! l)
      then Some (index t ! l ! (n * K + k)) else None)"

text \<open>The inner loop of \<^verbatim>\<open>__find_node\<close>, from key \<open>k\<close> on: the value of \<open>k\<close> at its exit.\<close>

function scan_keys ::
  "nat \<Rightarrow> ('a::len) word dm_table \<Rightarrow> nat \<Rightarrow> nat \<Rightarrow> 'a word \<Rightarrow> nat \<Rightarrow> nat option" where
  "scan_keys K t l n s k =
     (if k < K then
        (case get_node K t l n k of
           None \<Rightarrow> None
         | Some key \<Rightarrow> if key \<ge> s then Some k else scan_keys K t l n s (k + 1))
      else Some k)"
  by pat_completeness auto
termination
  by (relation "measure (\<lambda>(K, t, l, n, s, k). K - k)") auto

text \<open>The outer loop of \<^verbatim>\<open>__find_node\<close>, from level \<open>l\<close> on, and its return value.\<close>

function find_loop ::
  "nat \<Rightarrow> ('a::len) word dm_table \<Rightarrow> 'a word \<Rightarrow> nat \<Rightarrow> nat \<Rightarrow> nat \<Rightarrow> nat option" where
  "find_loop K t s l n k =
     (if l < depth t then
        (let n' = get_child K n k in
         case scan_keys K t l n' s 0 of
           None \<Rightarrow> None
         | Some k' \<Rightarrow> find_loop K t s (l + 1) n' k')
      else Some (K * n + k))"
  by pat_completeness auto
termination
  by (relation "measure (\<lambda>(K, t, s, l, n, k). depth t - l)") auto

definition find_node :: "nat \<Rightarrow> ('a::len) word dm_table \<Rightarrow> 'a word buffer_head \<Rightarrow> nat option" where
  "find_node K t bh = find_loop K t (b_rsector bh) 0 0 0"

subsection \<open>The request function\<close>

text \<open>
  The tail of \<^verbatim>\<open>request\<close>: \<^verbatim>\<open>__map_buffer(md, bh, rw, __find_node(md->map, bh))\<close>, then
  \<^verbatim>\<open>return 1\<close> or the label \<^verbatim>\<open>bad\<close>.
\<close>

definition request_map ::
  "nat \<Rightarrow> nat \<Rightarrow> ('a::len) word buffer_head \<Rightarrow> int \<Rightarrow> nat \<Rightarrow> 'a word dm \<Rightarrow>
     (int \<times> 'a word buffer_head \<times> 'a word dm) option" where
  "request_map K md bh rw ih s =
     (case devs s md of
        None \<Rightarrow> None
      | Some d \<Rightarrow>
         (case map_table d of
            None \<Rightarrow> None
          | Some t \<Rightarrow>
             (case tables s t of
                None \<Rightarrow> None
              | Some tb \<Rightarrow>
                 (case find_node K tb bh of
                    None \<Rightarrow> None
                  | Some leaf \<Rightarrow>
                     (case map_buffer md bh rw leaf ih s of
                        None \<Rightarrow> None
                      | Some (r, bh1, s1) \<Rightarrow>
                          if r = 0 then Some (0, bh1, buffer_IO_error bh1 s1)
                          else Some (1, bh1, s1))))))"

text \<open>
  \<open>request K rw bh di ih s\<close>, one call run without interruption; \<open>di\<close> and \<open>ih\<close> are
  what the two allocators return if they are called.
\<close>

definition request ::
  "nat \<Rightarrow> int \<Rightarrow> ('a::len) word buffer_head \<Rightarrow> bool \<Rightarrow> nat \<Rightarrow> 'a word dm \<Rightarrow>
     (int \<times> 'a word buffer_head \<times> 'a word dm) option" where
  "request K rw bh di ih s =
     (let minor = MINOR (b_rdev bh) in
      if minor \<ge> MAX_DEVICES then Some (0, bh, buffer_IO_error bh s)
      else case devs s minor of
        None \<Rightarrow> Some (0, bh, buffer_IO_error bh s)
      | Some md \<Rightarrow>
          if map_table md = None then Some (0, bh, buffer_IO_error bh s)
          else if DM_ACTIVE \<notin> state md then
            (case queue_io minor bh rw di s of
               None \<Rightarrow> None
             | Some (Inl e, s1) \<Rightarrow> Some (0, bh, buffer_IO_error bh s1)
             | Some (Inr r, s1) \<Rightarrow>
                 if r > 0 then Some (0, bh, s1)
                 else request_map K minor bh rw ih s1)
          else request_map K minor bh rw ih s)"


section \<open>The block-mapping query\<close>

definition kdev_t_to_nr :: "nat \<Rightarrow> nat" where
  "kdev_t_to_nr dev = dev"

text \<open>
  \<open>dm_user_bmap K i_rdev lvb s\<close>: \<open>lvb\<close> is the user's \<^verbatim>\<open>struct lv_bmap\<close>, \<open>None\<close> when
  the user pointer cannot be accessed (\<^verbatim>\<open>get_user\<close> fails).  The result carries the
  user's structure at return.  \<^verbatim>\<open>b_size >> 9\<close> is \<open>b_size div 512\<close>; a division by it
  when it is zero is undefined.
\<close>

definition dm_user_bmap ::
  "nat \<Rightarrow> nat \<Rightarrow> ('a::len) word lv_bmap option \<Rightarrow> 'a word dm \<Rightarrow>
     ((errno + unit) \<times> 'a word lv_bmap option \<times> 'a word dm) option" where
  "dm_user_bmap K i_rdev lvb s =
     (let minor = MINOR i_rdev in
      if minor \<ge> MAX_DEVICES then Some (Inl ENXIO, lvb, s)
      else case devs s minor of
        None \<Rightarrow> Some (Inl ENXIO, lvb, s)
      | Some md \<Rightarrow>
         (case lvb of
            None \<Rightarrow> Some (Inl EFAULT, lvb, s)
          | Some u \<Rightarrow>
             let block = lv_block u;
                 size = nat (blksize_size s minor);
                 bh = \<lparr>b_blocknr = block, b_dev = i_rdev, b_rdev = i_rdev, b_size = size,
                       b_rsector = block * of_nat (size div 512),
                       b_end_io = No_end_io, b_private = 0\<rparr>
             in
             if DM_ACTIVE \<notin> state md then Some (Inl EINVAL, lvb, s)
             else
               (case map_table md of
                  None \<Rightarrow> None
                | Some mp \<Rightarrow>
                   (case tables s mp of
                      None \<Rightarrow> None
                    | Some tb \<Rightarrow>
                       (case find_node K tb bh of
                          None \<Rightarrow> None
                        | Some leaf \<Rightarrow>
                           if leaf \<ge> length (targets tb) then None
                           else
                             let t = targets tb ! leaf;
                                 target = tgt_type t
                             in
                             if TF_BMAP \<notin> tt_flags target then Some (Inl EINVAL, lvb, s)
                             else
                               let (err, bh1) = tt_map target bh READ (tgt_private t);
                                   s1 = (if b_private bh1 \<noteq> 0
                                         then free_io_hook (b_private bh1) s else s)
                               in
                               if err = 0 then Some (Inl EINVAL, lvb, s1)
                               else if b_size bh1 div 512 = 0 then None
                               else
                                 let u1 = u\<lparr>lv_dev := kdev_t_to_nr (b_rdev bh1)\<rparr>;
                                     u2 = u1\<lparr>lv_dev :=
                                            unat (b_rsector bh1 div of_nat (b_size bh1 div 512))\<rparr>
                                 in Some (Inr (), Some u2, s1))))))"

section \<open>Creating and removing devices\<close>

definition specific_dev :: "int \<Rightarrow> 'o dm \<Rightarrow> int" where
  "specific_dev minor s =
     (if minor > int MAX_DEVICES then 0
      else if devs s (nat minor) = None then minor
      else - 1)"

definition any_old_dev :: "'o dm \<Rightarrow> int" where
  "any_old_dev s =
     (case find (\<lambda>i. devs s i = None) [0..<MAX_DEVICES] of
        Some i \<Rightarrow> int i
      | None \<Rightarrow> - 1)"

definition blank_dev :: "'o mapped_device" where
  "blank_dev = \<lparr>name = [], use_count = 0, state = {}, map_table = None, deferred = [],
                devfs_entry = False\<rparr>"

text \<open>
  \<open>alloc_dev minor mem s\<close>: \<open>mem\<close> tells whether \<^verbatim>\<open>kmalloc\<close> returned memory.  The
  result is the new device, or \<open>None\<close> for the null pointer.
\<close>

definition alloc_dev :: "int \<Rightarrow> bool \<Rightarrow> 'o dm \<Rightarrow> nat option \<times> 'o dm" where
  "alloc_dev minor mem s =
     (if \<not> mem then (None, s)
      else
        let m = (if minor < 0 then any_old_dev s else specific_dev minor s) in
        if m < 0 then (None, s)
        else (Some (nat m), s\<lparr>devs := (devs s)(nat m \<mapsto> blank_dev)\<rparr>))"

definition dm_find_by_minor :: "nat \<Rightarrow> 'o dm \<Rightarrow> 'o mapped_device option" where
  "dm_find_by_minor minor s = devs s minor"

text \<open>\<open>register_device md node s\<close>: \<open>node\<close> tells whether \<^verbatim>\<open>devfs_register\<close> returned an entry.\<close>

definition register_device :: "nat \<Rightarrow> bool \<Rightarrow> 'o dm \<Rightarrow> (errno + unit) \<times> 'o dm" where
  "register_device md node s =
     (let s1 = emit (Devfs_register (case devs s md of None \<Rightarrow> [] | Some d \<Rightarrow> name d) md)
                 (upd_dev md (\<lambda>d. d\<lparr>devfs_entry := node\<rparr>) s)
      in if \<not> node then (Inl ENOMEM, s1) else (Inr (), s1))"

definition unregister_device :: "nat \<Rightarrow> 'o dm \<Rightarrow> (errno + unit) \<times> 'o dm" where
  "unregister_device md s = (Inr (), emit (Devfs_unregister md) s)"

definition dm_create :: "string \<Rightarrow> int \<Rightarrow> bool \<Rightarrow> bool \<Rightarrow> 'o dm \<Rightarrow> (errno + nat) \<times> 'o dm" where
  "dm_create nm minor mem node s =
     (if minor \<ge> int MAX_DEVICES then (Inl ENXIO, s)
      else case alloc_dev minor mem s of
        (None, s1) \<Rightarrow> (Inl ENXIO, s1)
      | (Some md, s1) \<Rightarrow>
         (case register_device md node (upd_dev md (\<lambda>d. d\<lparr>name := nm\<rparr>) s1) of
            (Inl r, s2) \<Rightarrow> (Inl r, s2)
          | (Inr _, s2) \<Rightarrow> (Inr md, s2)))"

definition dm_remove :: "nat \<Rightarrow> 'o dm \<Rightarrow> ((errno + unit) \<times> 'o dm) option" where
  "dm_remove md s =
     (case devs s md of
        None \<Rightarrow> None
      | Some d \<Rightarrow>
          if use_count d \<noteq> 0 then Some (Inl EPERM, s)
          else case unregister_device md s of
            (Inl r, s1) \<Rightarrow> Some (Inl r, s1)
          | (Inr _, s1) \<Rightarrow> Some (Inr (), s1\<lparr>devs := (devs s1)(md := None)\<rparr>))"

section \<open>Binding a table and activating\<close>

text \<open>
  \<open>dm_bind md t s\<close> is \<^verbatim>\<open>__bind\<close>.  The read \<^verbatim>\<open>t->highs[t->num_targets - 1]\<close> of a table
  without targets is outside the array.
\<close>

definition dm_bind :: "nat \<Rightarrow> nat \<Rightarrow> ('a::len) word dm \<Rightarrow> 'a word dm option" where
  "dm_bind md t s =
     (case devs s md of
        None \<Rightarrow> None
      | Some d \<Rightarrow>
         (case tables s t of
            None \<Rightarrow> None
          | Some tb \<Rightarrow>
             if num_targets tb = 0 then None
             else
               let minor = md;
                   s1 = upd_dev md (\<lambda>d. d\<lparr>map_table := Some t\<rparr>) s;
                   bs = int_of_offset (drop_bit 1 (highs tb ! (num_targets tb - 1) + 1));
                   s2 = s1\<lparr>block_size := (block_size s1)(minor := bs),
                           blksize_size := (blksize_size s1)(minor := BLOCK_SIZE),
                           hardsect_sizes := (hardsect_sizes s1)(minor := hardsect_size tb)\<rparr>
               in Some (emit (Register_disk md bs) s2)))"

text \<open>The loop of \<^verbatim>\<open>__flush_deferred_io\<close> over the detached list \<open>c\<close>.\<close>

fun flush_loop :: "'o deferred_io list \<Rightarrow> 'o dm \<Rightarrow> 'o dm" where
  "flush_loop [] s = s"
| "flush_loop (c # n) s = flush_loop n (emit (Generic_make_request (di_rw c) (di_bh c)) s)"

definition flush_deferred_io :: "nat \<Rightarrow> 'o dm \<Rightarrow> 'o dm option" where
  "flush_deferred_io md s =
     (case devs s md of
        None \<Rightarrow> None
      | Some d \<Rightarrow> Some (flush_loop (deferred d) (upd_dev md (\<lambda>d. d\<lparr>deferred := []\<rparr>) s)))"

definition dm_activate ::
  "nat \<Rightarrow> nat \<Rightarrow> ('a::len) word dm \<Rightarrow> ((errno + unit) \<times> 'a word dm) option" where
  "dm_activate md table s =
     (case tables s table of
        None \<Rightarrow> None
      | Some tb \<Rightarrow>
          if num_targets tb = 0 then Some (Inl EINVAL, s)
          else case devs s md of
            None \<Rightarrow> None
          | Some d \<Rightarrow>
              if is_active d then Some (Inl EPERM, s)
              else case dm_bind md table s of
                None \<Rightarrow> None
              | Some s1 \<Rightarrow>
                 (case flush_deferred_io md
                         (upd_dev md (\<lambda>d. d\<lparr>state := insert DM_ACTIVE (state d)\<rparr>) s1) of
                    None \<Rightarrow> None
                  | Some s2 \<Rightarrow> Some (Inr (), s2)))"

section \<open>Other threads\<close>

text \<open>
  While \<^verbatim>\<open>dm_suspend\<close> sleeps in \<^verbatim>\<open>schedule()\<close>, and between the two locked sections of
  \<^verbatim>\<open>dm_deactivate\<close>, other threads run.  What they do to the driver through the block
  layer is a list of events: a request submitted, a request completed by the layer
  below (its \<^verbatim>\<open>b_end_io\<close> is called), the block device opened or closed.  Calls of
  \<^verbatim>\<open>dm_create\<close>, \<^verbatim>\<open>dm_activate\<close>, \<^verbatim>\<open>dm_suspend\<close>, \<^verbatim>\<open>dm_deactivate\<close> and \<^verbatim>\<open>dm_remove\<close> by other threads
  are not events; their interleaving is the subject of \<open>reachable\<close> below.
\<close>

datatype 'o event =
    Ev_request int "'o buffer_head" bool nat
  | Ev_end_io "'o buffer_head" int
  | Ev_open nat
  | Ev_close nat

fun run_event :: "nat \<Rightarrow> ('a::len) word event \<Rightarrow> 'a word dm \<Rightarrow> 'a word dm option" where
  "run_event K (Ev_request rw bh di ih) s =
     (case request K rw bh di ih s of None \<Rightarrow> None | Some (r, bh1, s1) \<Rightarrow> Some s1)"
| "run_event K (Ev_end_io bh uptodate) s =
     (if b_end_io bh = Dec_pending
      then (case dec_pending bh uptodate s of None \<Rightarrow> None | Some (bh1, s1) \<Rightarrow> Some s1)
      else Some s)"
| "run_event K (Ev_open i_rdev) s = Some (snd (dm_blk_open i_rdev s))"
| "run_event K (Ev_close i_rdev) s = Some (snd (dm_blk_close i_rdev s))"

fun run_events :: "nat \<Rightarrow> ('a::len) word event list \<Rightarrow> 'a word dm \<Rightarrow> 'a word dm option" where
  "run_events K [] s = Some s"
| "run_events K (e # es) s =
     (case run_event K e s of None \<Rightarrow> None | Some s1 \<Rightarrow> run_events K es s1)"

section \<open>Deactivating and suspending\<close>

text \<open>
  \<open>dm_deactivate K md evs s\<close>: \<open>evs\<close> are the events of the block layer between
  \<^verbatim>\<open>up_read\<close> and \<^verbatim>\<open>down_write\<close>.
\<close>

definition dm_deactivate ::
  "nat \<Rightarrow> nat \<Rightarrow> ('a::len) word event list \<Rightarrow> 'a word dm \<Rightarrow>
     ((errno + unit) \<times> 'a word dm) option" where
  "dm_deactivate K md evs s =
     (case devs s md of
        None \<Rightarrow> None
      | Some d \<Rightarrow>
          if use_count d \<noteq> 0 then Some (Inl EPERM, s)
          else case run_events K evs (emit (Fsync_dev md) s) of
            None \<Rightarrow> None
          | Some s1 \<Rightarrow>
             (case devs s1 md of
                None \<Rightarrow> None
              | Some d1 \<Rightarrow>
                  if use_count d1 \<noteq> 0 then Some (Inl EPERM, s1)
                  else Some (Inr (),
                         upd_dev md (\<lambda>d. d\<lparr>map_table := None,
                                            state := state d - {DM_ACTIVE}\<rparr>) s1)))"

text \<open>
  The two locked sections of \<^verbatim>\<open>dm_deactivate\<close> on their own: the test under the read
  lock with the call of \<^verbatim>\<open>fsync_dev\<close>, and the second test under the write lock with the
  stores \<^verbatim>\<open>md->map = 0\<close> and \<^verbatim>\<open>clear_bit\<close>, in this order, before the lock is released.
  \<open>deactivate_map_cleared\<close> is the state between the two stores.
\<close>

definition deactivate_map_cleared :: "nat \<Rightarrow> 'o dm \<Rightarrow> 'o dm" where
  "deactivate_map_cleared md s = upd_dev md (\<lambda>d. d\<lparr>map_table := None\<rparr>) s"

definition deactivate_check :: "nat \<Rightarrow> 'o dm \<Rightarrow> ((errno + unit) \<times> 'o dm) option" where
  "deactivate_check md s =
     (case devs s md of
        None \<Rightarrow> None
      | Some d \<Rightarrow>
          if use_count d \<noteq> 0 then Some (Inl EPERM, s)
          else Some (Inr (), emit (Fsync_dev md) s))"

definition deactivate_commit :: "nat \<Rightarrow> 'o dm \<Rightarrow> ((errno + unit) \<times> 'o dm) option" where
  "deactivate_commit md s =
     (case devs s md of
        None \<Rightarrow> None
      | Some d \<Rightarrow>
          if use_count d \<noteq> 0 then Some (Inl EPERM, s)
          else Some (Inr (),
                 upd_dev md (\<lambda>d. d\<lparr>state := state d - {DM_ACTIVE}\<rparr>)
                   (deactivate_map_cleared md s)))"

text \<open>
  The first locked section of \<^verbatim>\<open>dm_suspend\<close>: \<open>(False, s)\<close> when the device is not
  active and the function returns, \<open>(True, s')\<close> with the bit cleared otherwise.
\<close>

definition suspend_clear :: "nat \<Rightarrow> 'o dm \<Rightarrow> (bool \<times> 'o dm) option" where
  "suspend_clear md s =
     (case devs s md of
        None \<Rightarrow> None
      | Some d \<Rightarrow>
          if \<not> is_active d then Some (False, s)
          else Some (True, upd_dev md (\<lambda>d. d\<lparr>state := state d - {DM_ACTIVE}\<rparr>) s))"

text \<open>
  One turn of the wait loop of \<^verbatim>\<open>dm_suspend\<close>, under the write lock: it reads
  \<^verbatim>\<open>md->map->pending\<close>; \<open>(True, s')\<close> when the count is zero and the function leaves with
  \<^verbatim>\<open>md->map = 0\<close>, \<open>(False, s)\<close> when it releases the lock and sleeps again.
\<close>

definition suspend_check :: "nat \<Rightarrow> 'o dm \<Rightarrow> (bool \<times> 'o dm) option" where
  "suspend_check md s =
     (case devs s md of
        None \<Rightarrow> None
      | Some d \<Rightarrow>
         (case map_table d of
            None \<Rightarrow> None
          | Some t \<Rightarrow>
             (case tables s t of
                None \<Rightarrow> None
              | Some tb \<Rightarrow>
                  if pending tb = 0
                  then Some (True, upd_dev md (\<lambda>d. d\<lparr>map_table := None\<rparr>) s)
                  else Some (False, s))))"

text \<open>
  The wait loop of \<^verbatim>\<open>dm_suspend\<close>.  \<open>sched\<close> lists, for each time the thread takes the
  write lock, the events of the block layer that came before (after the bit was
  cleared, or during \<^verbatim>\<open>schedule()\<close>); no other thread calls \<^verbatim>\<open>dm_activate\<close>,
  \<^verbatim>\<open>dm_deactivate\<close> or \<^verbatim>\<open>dm_remove\<close> meanwhile.  The loop reads \<^verbatim>\<open>md->map->pending\<close> under
  the lock and leaves with \<^verbatim>\<open>md->map = 0\<close>.  \<open>None\<close> when the schedule ends before the
  counter is seen at zero: the thread sleeps for ever.
\<close>

fun suspend_wait ::
  "nat \<Rightarrow> nat \<Rightarrow> ('a::len) word event list list \<Rightarrow> 'a word dm \<Rightarrow> 'a word dm option" where
  "suspend_wait K md [] s = None"
| "suspend_wait K md (evs # sched) s =
     (case run_events K evs s of
        None \<Rightarrow> None
      | Some s1 \<Rightarrow>
         (case devs s1 md of
            None \<Rightarrow> None
          | Some d \<Rightarrow>
             (case map_table d of
                None \<Rightarrow> None
              | Some t \<Rightarrow>
                 (case tables s1 t of
                    None \<Rightarrow> None
                  | Some tb \<Rightarrow>
                      if pending tb = 0
                      then Some (upd_dev md (\<lambda>d. d\<lparr>map_table := None\<rparr>) s1)
                      else suspend_wait K md sched s1))))"

definition dm_suspend ::
  "nat \<Rightarrow> nat \<Rightarrow> ('a::len) word event list list \<Rightarrow> 'a word dm \<Rightarrow> 'a word dm option" where
  "dm_suspend K md sched s =
     (case suspend_clear md s of
        None \<Rightarrow> None
      | Some (False, s1) \<Rightarrow> Some s1
      | Some (True, s1) \<Rightarrow> suspend_wait K md sched s1)"


section \<open>The index of a mapping table\<close>

text \<open>
  Modelled from the spec: the index that \<^verbatim>\<open>dm_table_complete\<close> of dm-table.c (missing)
  builds, a search tree of fixed fanout over the sorted \<open>highs\<close>.  The leaf level is
  the array \<open>highs\<close> itself.  A node of level \<open>l\<close> spans \<open>span K d l\<close> consecutive targets,
  and key \<open>k\<close> of an interior node is the highest sector of its child \<open>k\<close>: the high of
  the last target that child spans, or \<^verbatim>\<open>(offset_t) -1\<close> when there is no such target.
\<close>

definition span :: "nat \<Rightarrow> nat \<Rightarrow> nat \<Rightarrow> nat" where
  "span K d l = K * (K + 1) ^ (d - 1 - l)"

definition padded_high :: "('a::len) word list \<Rightarrow> nat \<Rightarrow> 'a word" where
  "padded_high hs i = (if i < length hs then hs ! i else - 1)"

definition btree_ok :: "nat \<Rightarrow> ('a::len) word dm_table \<Rightarrow> bool" where
  "btree_ok K t \<longleftrightarrow>
     0 < depth t \<and> length (index t) = depth t \<and> index t ! (depth t - 1) = highs t \<and>
     length (highs t) \<le> span K (depth t) 0 \<and>
     (\<forall>l < depth t - 1.
        K dvd length (index t ! l) \<and>
        length (highs t) \<le> (length (index t ! l) div K) * span K (depth t) l \<and>
        (\<forall>j < length (index t ! l).
           index t ! l ! j =
             padded_high (highs t)
               (get_child K (j div K) (j mod K + 1) * span K (depth t) (l + 1) - 1)))"


section \<open>The states between locked sections\<close>

text \<open>
  What the state machine of a device looks at: for each minor, the state bits and the
  table pointer of the device in its slot.
\<close>

definition ctl_of :: "'o dm \<Rightarrow> nat \<Rightarrow> (dm_flag set \<times> nat option) option" where
  "ctl_of s m = map_option (\<lambda>d. (state d, map_table d)) (devs s m)"

definition active_iff_bound :: "'o dm \<Rightarrow> bool" where
  "active_iff_bound s \<longleftrightarrow>
     (\<forall>m d. devs s m = Some d \<longrightarrow> (is_active d \<longleftrightarrow> map_table d \<noteq> None))"

text \<open>
  The same for a set \<open>W\<close> of devices on which a \<^verbatim>\<open>dm_suspend\<close> waits: these are in their
  slots, not active and with a table, and every other device is active if and only if
  it has a table.
\<close>

definition ctl_ok :: "nat set \<Rightarrow> (nat \<Rightarrow> (dm_flag set \<times> nat option) option) \<Rightarrow> bool" where
  "ctl_ok W c \<longleftrightarrow>
     (\<forall>m. (m \<in> W \<longrightarrow> (\<exists>st t. c m = Some (st, Some t) \<and> DM_ACTIVE \<notin> st)) \<and>
          (m \<notin> W \<longrightarrow> (\<forall>st mp. c m = Some (st, mp) \<longrightarrow> (DM_ACTIVE \<in> st \<longleftrightarrow> mp \<noteq> None))))"

text \<open>
  The states of the driver at the instants at which no thread is inside a section
  locked with \<^verbatim>\<open>_dev_lock\<close>.  Threads call the functions of the driver in any
  interleaving, and every store to a slot, a state bit or a table pointer is made with
  the lock held for writing, so a run is a sequence of locked sections:

  \<^item> of \<^verbatim>\<open>dm_create\<close>, the section of \<^verbatim>\<open>alloc_dev\<close>, which it calls with a minor below
    \<^verbatim>\<open>MAX_DEVICES\<close> only, and the section that names and registers the device;
  \<^item> the section of \<^verbatim>\<open>dm_activate\<close>, and that of \<^verbatim>\<open>dm_remove\<close>;
  \<^item> the first section of \<^verbatim>\<open>dm_suspend\<close>, and a turn of its wait loop;
  \<^item> the two sections of \<^verbatim>\<open>dm_deactivate\<close>;
  \<^item> an event of the block layer.

  The driver starts without devices.  \<open>W\<close> is the set of the devices on which a
  \<^verbatim>\<open>dm_suspend\<close> has cleared the bit and has not yet left its loop.

  One restriction is made on the interleaving: while a \<^verbatim>\<open>dm_suspend\<close> waits on a device,
  no \<^verbatim>\<open>dm_activate\<close>, no second section of \<^verbatim>\<open>dm_deactivate\<close> and no \<^verbatim>\<open>dm_remove\<close> runs on
  that device.  Anything else may run at any time, on any device: the sections need not
  come in the order of a call (the second section of \<^verbatim>\<open>dm_deactivate\<close> without the
  first), which only adds runs.  A section that returns with the state as it was (a
  turn of the wait loop that finds requests pending, \<^verbatim>\<open>dm_suspend\<close> of a device that is
  not active, \<^verbatim>\<open>dm_find_by_minor\<close>, \<^verbatim>\<open>dm_user_bmap\<close>) is no step.

  The two stores of \<^verbatim>\<open>dm_activate\<close> (\<^verbatim>\<open>md->map\<close>, then the bit) and of \<^verbatim>\<open>dm_deactivate\<close>
  (\<^verbatim>\<open>md->map = 0\<close>, then the bit) are made inside one section, with the lock held for
  writing: the state between the two stores is no state of this relation.  An event of
  the block layer is one step; none writes a slot, a state bit or a table pointer.
\<close>

inductive reachable :: "nat \<Rightarrow> nat set \<Rightarrow> ('a::len) word dm \<Rightarrow> bool" for K :: nat where
  init: "devs s = (\<lambda>_. None) \<Longrightarrow> reachable K {} s"
| create_alloc:
    "reachable K W s \<Longrightarrow> minor < int MAX_DEVICES \<Longrightarrow> alloc_dev minor mem s = (a, s') \<Longrightarrow>
     reachable K W s'"
| create_register:
    "reachable K W s \<Longrightarrow>
     register_device md node (upd_dev md (\<lambda>d. d\<lparr>name := nm\<rparr>) s) = (r, s') \<Longrightarrow>
     reachable K W s'"
| activate:
    "reachable K W s \<Longrightarrow> md \<notin> W \<Longrightarrow> dm_activate md t s = Some (ra, s') \<Longrightarrow> reachable K W s'"
| suspend_begin:
    "reachable K W s \<Longrightarrow> suspend_clear md s = Some (True, s') \<Longrightarrow>
     reachable K (insert md W) s'"
| suspend_end:
    "reachable K W s \<Longrightarrow> md \<in> W \<Longrightarrow> suspend_check md s = Some (True, s') \<Longrightarrow>
     reachable K (W - {md}) s'"
| deactivate_begin:
    "reachable K W s \<Longrightarrow> deactivate_check md s = Some (ra, s') \<Longrightarrow> reachable K W s'"
| deactivate_end:
    "reachable K W s \<Longrightarrow> md \<notin> W \<Longrightarrow> deactivate_commit md s = Some (ra, s') \<Longrightarrow>
     reachable K W s'"
| remove:
    "reachable K W s \<Longrightarrow> md \<notin> W \<Longrightarrow> dm_remove md s = Some (ra, s') \<Longrightarrow> reachable K W s'"
| event: "reachable K W s \<Longrightarrow> run_event K e s = Some s' \<Longrightarrow> reachable K W s'"

section \<open>Example objects and runs\<close>

text \<open>
  A linear target type: sector \<open>s\<close> of the mapped device is sector \<open>s + p\<close> of the
  device \<open>2049\<close>, where \<open>p\<close> is the private value of the target; it has no \<^verbatim>\<open>err\<close>
  and answers block-mapping queries.
\<close>

definition linear_type :: "32 word target_type" where
  "linear_type =
     \<lparr>tt_map = (\<lambda>bh rw p. (1, bh\<lparr>b_rdev := 2049, b_rsector := b_rsector bh + of_nat p\<rparr>)),
      tt_err = None,
      tt_flags = {TF_BMAP}\<rparr>"

definition linear :: "nat \<Rightarrow> 32 word target" where
  "linear p = \<lparr>tgt_type = linear_type, tgt_private = p\<rparr>"

text \<open>
  Three more target types, like \<open>linear_type\<close> except that the first has an \<^verbatim>\<open>err\<close>
  that asks for a retry of every failed request, the map function of the second
  keeps the request and returns 0, and the map function of the third fails with -5.
\<close>

definition retry_type :: "32 word target_type" where
  "retry_type = linear_type\<lparr>tt_err := Some (\<lambda>bh rw p. 1)\<rparr>"

definition keeping_type :: "32 word target_type" where
  "keeping_type = linear_type\<lparr>tt_map := (\<lambda>bh rw p. (0, bh))\<rparr>"

definition failing_type :: "32 word target_type" where
  "failing_type = linear_type\<lparr>tt_map := (\<lambda>bh rw p. (- 5, bh))\<rparr>"

text \<open>The table of two targets with highs 99 and 199, for eight keys per node.\<close>

definition two_targets :: "32 word dm_table" where
  "two_targets =
     \<lparr>depth = 1, index = [[99, 199]], highs = [99, 199],
      targets = [linear 1000, linear 5000], hardsect_size = 512, pending = 0\<rparr>"

text \<open>The table with highs 10, 20, 30, 40, 50, for two keys per node: depth 2.\<close>

definition five_targets :: "32 word dm_table" where
  "five_targets =
     \<lparr>depth = 2, index = [[20, 40], [10, 20, 30, 40, 50]], highs = [10, 20, 30, 40, 50],
      targets = [linear 0, linear 100, linear 200, linear 300, linear 400],
      hardsect_size = 512, pending = 0\<rparr>"

text \<open>A table with one target of each type, for eight keys per node.\<close>

definition mixed_targets :: "32 word dm_table" where
  "mixed_targets =
     \<lparr>depth = 1, index = [[99, 199, 299, 399]], highs = [99, 199, 299, 399],
      targets = [linear 1000, \<lparr>tgt_type = retry_type, tgt_private = 5000\<rparr>,
                 \<lparr>tgt_type = keeping_type, tgt_private = 0\<rparr>,
                 \<lparr>tgt_type = failing_type, tgt_private = 0\<rparr>],
      hardsect_size = 512, pending = 0\<rparr>"

text \<open>A read of sector \<open>s\<close> of the device with minor 0, submitted with completion routine 7.\<close>

definition read_at :: "32 word \<Rightarrow> 32 word buffer_head" where
  "read_at s =
     \<lparr>b_blocknr = 0, b_dev = 0, b_rdev = 0, b_size = 1024, b_rsector = s,
      b_end_io = Caller_end_io 7, b_private = 0\<rparr>"

text \<open>
  A driver with no device and the three tables in store at the addresses 5, 6 and 7;
  the device \<open>vol0\<close> created on it with minor 0; that device activated with the table of
  two targets, or with the mixed table.
\<close>

definition init_state :: "32 word dm" where
  "init_state =
     \<lparr>devs = (\<lambda>_. None),
      tables = [5 \<mapsto> two_targets, 6 \<mapsto> five_targets, 7 \<mapsto> mixed_targets],
      io_hooks = (\<lambda>_. None), block_size = (\<lambda>_. 0), blksize_size = (\<lambda>_. 0),
      hardsect_sizes = (\<lambda>_. 0), trace = []\<rparr>"

definition created_state :: "32 word dm" where
  "created_state = snd (dm_create ''vol0'' 0 True True init_state)"

definition active_state :: "32 word dm" where
  "active_state =
     (case dm_activate 0 5 created_state of Some (r, s) \<Rightarrow> s | None \<Rightarrow> created_state)"

definition mixed_state :: "32 word dm" where
  "mixed_state =
     (case dm_activate 0 7 created_state of Some (r, s) \<Rightarrow> s | None \<Rightarrow> created_state)"

text \<open>
  The state \<open>mixed_state\<close> after a read of sector 7 has been mapped with a hook at the
  address 11, and after a read of sector 150 has then been mapped with a hook at 12.
\<close>

definition one_inflight_state :: "32 word dm" where
  "one_inflight_state =
     (case run_event 8 (Ev_request 0 (read_at 7) True 11) mixed_state of
        Some s \<Rightarrow> s | None \<Rightarrow> mixed_state)"

definition inflight_state :: "32 word dm" where
  "inflight_state =
     (case run_event 8 (Ev_request 0 (read_at 150) True 12) one_inflight_state of
        Some s \<Rightarrow> s | None \<Rightarrow> one_inflight_state)"

text \<open>
  The two requests in flight in \<open>inflight_state\<close> as the layer below holds them, and a
  schedule for a thread that waits in \<^verbatim>\<open>dm_suspend\<close>: before it first takes the lock a
  read of sector 50 is submitted, then the first request completes, then the second.
\<close>

definition inflight_1 :: "32 word buffer_head" where
  "inflight_1 = (read_at 1007)\<lparr>b_rdev := 2049, b_end_io := Dec_pending, b_private := 11\<rparr>"

definition inflight_2 :: "32 word buffer_head" where
  "inflight_2 = (read_at 5150)\<lparr>b_rdev := 2049, b_end_io := Dec_pending, b_private := 12\<rparr>"

definition drain_schedule :: "32 word event list list" where
  "drain_schedule =
     [[Ev_request 0 (read_at 50) True 13], [Ev_end_io inflight_1 1], [Ev_end_io inflight_2 1]]"

text \<open>
  The state \<open>inflight_state\<close> after the first locked section of a \<^verbatim>\<open>dm_suspend\<close> of the
  device; that state after another thread has activated the device with the table
  at 5; and the state in which the \<^verbatim>\<open>dm_suspend\<close> then returns, when it next takes the
  lock.
\<close>

definition window_state :: "32 word dm" where
  "window_state =
     (case suspend_clear 0 inflight_state of Some (b, s) \<Rightarrow> s | None \<Rightarrow> inflight_state)"

definition reactivated_state :: "32 word dm" where
  "reactivated_state =
     (case dm_activate 0 5 window_state of Some (r, s) \<Rightarrow> s | None \<Rightarrow> window_state)"

definition raced_state :: "32 word dm" where
  "raced_state =
     (case suspend_wait 8 0 [[]] reactivated_state of
        Some s \<Rightarrow> s | None \<Rightarrow> reactivated_state)"

text \<open>
  A table of one target that ends at the last sector that an \<^verbatim>\<open>offset_t\<close> of 32 bits
  can name, and the driver with the device \<open>vol0\<close> created and this table in store at
  the address 8.
\<close>

definition last_sector_table :: "32 word dm_table" where
  "last_sector_table =
     \<lparr>depth = 1, index = [[4294967295]], highs = [4294967295],
      targets = [linear 0], hardsect_size = 512, pending = 0\<rparr>"

definition last_sector_state :: "32 word dm" where
  "last_sector_state =
     created_state\<lparr>tables := (tables created_state)(8 \<mapsto> last_sector_table)\<rparr>"

text \<open>
  A run of deferrals in arrival order: each request of the list is handed to
  \<^verbatim>\<open>queue_io\<close>, which gets its entry from the allocator and returns 1.
\<close>

fun defer_all :: "nat \<Rightarrow> ('o buffer_head \<times> int) list \<Rightarrow> 'o dm \<Rightarrow> 'o dm option" where
  "defer_all md [] s = Some s"
| "defer_all md ((bh, rw) # rs) s =
     (case queue_io md bh rw True s of
        Some (Inr r, s1) \<Rightarrow> if r = 1 then defer_all md rs s1 else None
      | _ \<Rightarrow> None)"

section \<open>The lookup finds the target that owns the sector\<close>

declare scan_keys.simps [simp del] find_loop.simps [simp del]

lemma padded_high_ge_iff:
  fixes hs :: "('a::len) word list"
  assumes "sorted_wrt (<) hs" "i < length hs" "i = 0 \<or> hs ! (i - 1) < s" "s \<le> hs ! i"
  shows "s \<le> padded_high hs j \<longleftrightarrow> i \<le> j"
proof (cases "j < length hs")
  case False
  then show ?thesis using assms(2) by (simp add: padded_high_def)
next
  case True
  show ?thesis
  proof (cases "i \<le> j")
    case le: True
    have "hs ! i \<le> hs ! j"
    proof (cases "i = j")
      case True then show ?thesis by simp
    next
      case False
      then have "i < j" using le by simp
      then have "hs ! i < hs ! j" using assms(1) True by (simp add: sorted_wrt_iff_nth_less)
      then show ?thesis by simp
    qed
    then show ?thesis using assms(4) le True by (simp add: padded_high_def)
  next
    case gt: False
    then have ipos: "i \<noteq> 0" and jle: "j \<le> i - 1" by simp_all
    have "hs ! j \<le> hs ! (i - 1)"
    proof (cases "j = i - 1")
      case True then show ?thesis by simp
    next
      case False
      then have "j < i - 1" using jle by simp
      then have "hs ! j < hs ! (i - 1)" using assms(1,2) by (simp add: sorted_wrt_iff_nth_less)
      then show ?thesis by simp
    qed
    moreover have "hs ! (i - 1) < s" using assms(3) ipos by simp
    ultimately have "\<not> s \<le> hs ! j" by simp
    then show ?thesis using gt True by (simp add: padded_high_def)
  qed
qed

lemma span_step: "l + 1 < d \<Longrightarrow> span K d l = (K + 1) * span K d (l + 1)"
proof -
  assume "l + 1 < d"
  then have "d - 1 - l = Suc (d - 1 - (l + 1))" by simp
  then have "(K + 1) ^ (d - 1 - l) = (K + 1) * (K + 1) ^ (d - 1 - (l + 1))" by simp
  then show ?thesis unfolding span_def by (simp only: mult.left_commute)
qed

lemma span_leaf: "0 < d \<Longrightarrow> span K d (d - 1) = K"
  by (simp add: span_def)

lemma span_pos: "0 < K \<Longrightarrow> 0 < span K d l"
  by (simp add: span_def)


lemma get_node_interior:
  assumes "btree_ok K t" "l + 1 < depth t" "n * K + k < length (index t ! l)" "k < K"
  shows "get_node K t l n k =
           Some (padded_high (highs t) (get_child K n (k + 1) * span K (depth t) (l + 1) - 1))"
proof -
  have l: "l < depth t - 1" using assms(2) by simp
  have len: "l < length (index t)" using assms(1,2) by (simp add: btree_ok_def)
  have "(n * K + k) div K = n" "(n * K + k) mod K = k" using assms(4) by simp_all
  moreover have "index t ! l ! (n * K + k) =
      padded_high (highs t)
        (get_child K ((n * K + k) div K) ((n * K + k) mod K + 1) * span K (depth t) (l + 1) - 1)"
    using assms(1,3) l unfolding btree_ok_def by blast
  ultimately show ?thesis using len assms(3) by (simp add: get_node_def)
qed

lemma node_in_range:
  assumes "btree_ok K t" "l + 1 < depth t" "0 < K"
    "n * span K (depth t) l \<le> i" "i < length (highs t)" "k < K"
  shows "n * K + k < length (index t ! l)"
proof -
  let ?c = "length (index t ! l) div K"
  have l: "l < depth t - 1" using assms(2) by simp
  have dvd: "K dvd length (index t ! l)" and cov: "length (highs t) \<le> ?c * span K (depth t) l"
    using assms(1) l unfolding btree_ok_def by blast+
  have "n * span K (depth t) l < ?c * span K (depth t) l" using assms(4,5) cov by linarith
  then have "n < ?c" by (rule mult_less_cancel2 [THEN iffD1, THEN conjunct2])
  then have "Suc n \<le> ?c" by simp
  then have "Suc n * K \<le> ?c * K" by (rule mult_le_mono1)
  moreover have "?c * K = length (index t ! l)" using dvd by simp
  ultimately show ?thesis using assms(6) by simp
qed


lemma scan_keys_interior:
  fixes t :: "('a::len) word dm_table"
  assumes ok: "btree_ok K t" and K: "0 < K" and l: "l + 1 < depth t"
    and srt: "sorted_wrt (<) (highs t)" and i: "i < length (highs t)"
    and lo: "i = 0 \<or> highs t ! (i - 1) < s" and hi: "s \<le> highs t ! i"
    and nlo: "n * span K (depth t) l \<le> i" and nhi: "i < (n + 1) * span K (depth t) l"
  shows "k0 \<le> K \<Longrightarrow> get_child K n k0 * span K (depth t) (l + 1) \<le> i \<Longrightarrow>
         \<exists>k. scan_keys K t l n s k0 = Some k \<and> k \<le> K \<and>
             get_child K n k * span K (depth t) (l + 1) \<le> i \<and>
             i < (get_child K n k + 1) * span K (depth t) (l + 1)"
proof (induction "K - k0" arbitrary: k0)
  case 0
  then have k0: "k0 = K" by simp
  have "(get_child K n K + 1) * span K (depth t) (l + 1) = (n + 1) * span K (depth t) l"
    unfolding get_child_def span_step [OF l, of K] by (simp add: algebra_simps)
  then show ?case using k0 nhi "0.prems" by (simp add: scan_keys.simps)
next
  case (Suc d)
  then have k0: "k0 < K" by simp
  let ?S = "span K (depth t) (l + 1)"
  let ?j = "get_child K n (k0 + 1) * ?S - 1"
  have Spos: "0 < ?S" using K by (rule span_pos)
  have rd: "get_node K t l n k0 = Some (padded_high (highs t) ?j)"
    using get_node_interior [OF ok l node_in_range [OF ok l K nlo i k0] k0] .
  have cpos: "0 < get_child K n (k0 + 1) * ?S" using Spos by (simp add: get_child_def)
  have key: "s \<le> padded_high (highs t) ?j \<longleftrightarrow> i < get_child K n (k0 + 1) * ?S"
    using padded_high_ge_iff [OF srt i lo hi, of ?j] cpos by linarith
  have nxt: "get_child K n (k0 + 1) = get_child K n k0 + 1" by (simp add: get_child_def)
  show ?case
  proof (cases "s \<le> padded_high (highs t) ?j")
    case True
    then have "scan_keys K t l n s k0 = Some k0"
      using k0 rd by (subst scan_keys.simps) simp
    then show ?thesis using True key nxt k0 Suc.prems by auto
  next
    case False
    then have step: "scan_keys K t l n s k0 = scan_keys K t l n s (k0 + 1)"
      using k0 rd by (subst scan_keys.simps) simp
    have "d = K - (k0 + 1)" using Suc.hyps(2) by simp
    moreover have "k0 + 1 \<le> K" using k0 by simp
    moreover have "get_child K n (k0 + 1) * ?S \<le> i" using False key by simp
    ultimately show ?thesis using Suc.hyps(1) [of "k0 + 1"] step by simp
  qed
qed

lemma scan_keys_leaf:
  fixes t :: "('a::len) word dm_table"
  assumes ok: "btree_ok K t" and K: "0 < K"
    and srt: "sorted_wrt (<) (highs t)" and i: "i < length (highs t)"
    and lo: "i = 0 \<or> highs t ! (i - 1) < s" and hi: "s \<le> highs t ! i"
    and nhi: "i < (n + 1) * K"
  shows "n * K + k0 \<le> i \<Longrightarrow> scan_keys K t (depth t - 1) n s k0 = Some (i - n * K)"
proof (induction "i - (n * K + k0)" arbitrary: k0)
  case 0
  then have eq: "n * K + k0 = i" by simp
  then have k0: "k0 < K" using nhi by simp
  have lvl: "depth t - 1 < length (index t)" "index t ! (depth t - 1) = highs t"
    using ok by (simp_all add: btree_ok_def)
  have "get_node K t (depth t - 1) n k0 = Some (highs t ! i)"
    using lvl i eq by (simp add: get_node_def)
  then have "scan_keys K t (depth t - 1) n s k0 = Some k0"
    using k0 hi by (subst scan_keys.simps) simp
  then show ?case using eq by auto
next
  case (Suc d)
  then have lt: "n * K + k0 < i" by simp
  then have k0: "k0 < K" using nhi by simp
  have lvl: "depth t - 1 < length (index t)" "index t ! (depth t - 1) = highs t"
    using ok by (simp_all add: btree_ok_def)
  have inr: "n * K + k0 < length (highs t)" using lt i by simp
  have rd: "get_node K t (depth t - 1) n k0 = Some (highs t ! (n * K + k0))"
    using lvl inr by (simp add: get_node_def)
  have "highs t ! (n * K + k0) = padded_high (highs t) (n * K + k0)"
    using inr by (simp add: padded_high_def)
  then have "\<not> s \<le> highs t ! (n * K + k0)"
    using padded_high_ge_iff [OF srt i lo hi, of "n * K + k0"] lt by simp
  then have step: "scan_keys K t (depth t - 1) n s k0 = scan_keys K t (depth t - 1) n s (k0 + 1)"
    using k0 rd by (subst scan_keys.simps) simp
  have "d = i - (n * K + (k0 + 1))" using Suc.hyps(2) by simp
  moreover have "n * K + (k0 + 1) \<le> i" using lt by simp
  ultimately show ?case using Suc.hyps(1) [of "k0 + 1"] step by simp
qed

lemma find_loop_correct:
  fixes t :: "('a::len) word dm_table"
  assumes ok: "btree_ok K t" and K: "0 < K"
    and srt: "sorted_wrt (<) (highs t)" and i: "i < length (highs t)"
    and lo: "i = 0 \<or> highs t ! (i - 1) < s" and hi: "s \<le> highs t ! i"
  shows "l < depth t \<Longrightarrow> get_child K n k * span K (depth t) l \<le> i \<Longrightarrow>
         i < (get_child K n k + 1) * span K (depth t) l \<Longrightarrow>
         find_loop K t s l n k = Some i"
proof (induction "depth t - l" arbitrary: l n k)
  case 0
  then show ?case by simp
next
  case (Suc d)
  let ?c = "get_child K n k"
  show ?case
  proof (cases "l + 1 < depth t")
    case False
    then have leaf: "l = depth t - 1" using Suc.prems(1) by simp
    have dpos: "0 < depth t" using Suc.prems(1) by simp
    have sp: "span K (depth t) l = K" using leaf span_leaf [OF dpos] by simp
    have clo: "?c * K + 0 \<le> i" and chi: "i < (?c + 1) * K" using Suc.prems(2,3) sp by simp_all
    have sc: "scan_keys K t l ?c s 0 = Some (i - ?c * K)"
      using scan_keys_leaf [OF ok K srt i lo hi chi clo] leaf by simp
    have "find_loop K t s (l + 1) ?c (i - ?c * K) = Some (K * ?c + (i - ?c * K))"
      using False by (subst find_loop.simps) simp
    moreover have "K * ?c + (i - ?c * K) = i" using clo by (simp add: mult.commute)
    ultimately show ?thesis using sc Suc.prems(1) by (subst find_loop.simps) (simp add: Let_def)
  next
    case True
    have "get_child K ?c 0 * span K (depth t) (l + 1) = ?c * span K (depth t) l"
      unfolding span_step [OF True, of K] by (simp add: get_child_def algebra_simps)
    then have c0: "get_child K ?c 0 * span K (depth t) (l + 1) \<le> i"
      using Suc.prems(2) by simp
    obtain k' where sc: "scan_keys K t l ?c s 0 = Some k'"
      and lo': "get_child K ?c k' * span K (depth t) (l + 1) \<le> i"
      and hi': "i < (get_child K ?c k' + 1) * span K (depth t) (l + 1)"
      using scan_keys_interior [OF ok K True srt i lo hi Suc.prems(2,3) _ c0] by auto
    have "d = depth t - (l + 1)" using Suc.hyps(2) by simp
    then have "find_loop K t s (l + 1) ?c k' = Some i"
      using Suc.hyps(1) [of "l + 1" ?c k'] True lo' hi' by simp
    then show ?thesis using sc Suc.prems(1) by (subst find_loop.simps) (simp add: Let_def)
  qed
qed

lemma find_node_correct:
  fixes t :: "('a::len) word dm_table"
  assumes "btree_ok K t" "0 < K" "sorted_wrt (<) (highs t)" "i < length (highs t)"
    "i = 0 \<or> highs t ! (i - 1) < b_rsector bh" "b_rsector bh \<le> highs t ! i"
  shows "find_node K t bh = Some i"
proof -
  have d: "0 < depth t" and n: "length (highs t) \<le> span K (depth t) 0"
    using assms(1) by (simp_all add: btree_ok_def)
  have "get_child K 0 0 = 0" by (simp add: get_child_def)
  then show ?thesis
    unfolding find_node_def
    using find_loop_correct [OF assms(1,2,3,4,5,6) d, of 0 0] assms(4) n by simp
qed

lemma unat_small:
  assumes "7 < LENGTH('a::len)" "n < 256"
  shows "unat (of_nat n :: 'a word) = n"
proof -
  have "(2::nat) ^ 8 \<le> 2 ^ LENGTH('a)" using assms(1) by (intro power_increasing) simp_all
  then have "n < 2 ^ LENGTH('a)" using assms(2) by simp
  then show ?thesis by (simp add: unat_of_nat)
qed

lemma two_target_order:
  assumes "7 < LENGTH('a::len)"
  shows "(0::'a word) \<le> 99" "(99::'a word) < 100" "(100::'a word) \<le> 199" "(99::'a word) < 199"
proof -
  have a: "unat (99::'a word) = 99" using unat_small [OF assms, of 99] by simp
  have b: "unat (100::'a word) = 100" using unat_small [OF assms, of 100] by simp
  have c: "unat (199::'a word) = 199" using unat_small [OF assms, of 199] by simp
  show "(0::'a word) \<le> 99" by simp
  show "(99::'a word) < 100" using a b by (simp add: word_less_nat_alt)
  show "(100::'a word) \<le> 199" using b c by (simp add: word_le_nat_alt)
  show "(99::'a word) < 199" using a c by (simp add: word_less_nat_alt)
qed

lemma least_index_exists:
  fixes hs :: "('a::len) word list"
  assumes "hs \<noteq> []" "s \<le> last hs"
  shows "\<exists>i < length hs. (i = 0 \<or> hs ! (i - 1) < s) \<and> s \<le> hs ! i"
proof -
  let ?P = "\<lambda>i. i < length hs \<and> s \<le> hs ! i"
  have ex: "?P (length hs - 1)" using assms by (simp add: last_conv_nth)
  define i where "i = (LEAST i. ?P i)"
  have Pi: "?P i" unfolding i_def using ex by (rule LeastI)
  have "i = 0 \<or> hs ! (i - 1) < s"
  proof (cases "i = 0")
    case False
    then have "i - 1 < i" by simp
    then have "\<not> ?P (i - 1)" unfolding i_def by (rule not_less_Least)
    then show ?thesis using Pi False by auto
  qed simp
  then show ?thesis using Pi by blast
qed


text \<open>
  Every list of highs has such an index, whatever the number of keys per node: a tree
  deep enough, with every interior level filled by the rule for its keys.
\<close>

lemma btree_ok_exists:
  fixes hs :: "('a::len) word list"
  assumes K: "0 < K"
  shows "\<exists>t. highs t = hs \<and> targets t = ts \<and> btree_ok K t"
proof -
  define N where "N = length hs"
  define d where "d = N + 1"
  define key where "key l j =
      padded_high hs (get_child K (j div K) (j mod K + 1) * span K d (l + 1) - 1)" for l j
  define level where "level l = (if l = d - 1 then hs else map (key l) [0..<K * N])" for l
  define t where "t = \<lparr>depth = d, index = map level [0..<d], highs = hs, targets = ts,
      hardsect_size = 512, pending = 0\<rparr>"
  have "N < 2 ^ N" by (rule less_exp)
  also have "(2::nat) ^ N \<le> (K + 1) ^ N" using K by (intro power_mono) simp_all
  also have "(K + 1) ^ N \<le> K * (K + 1) ^ N" using K by simp
  finally have cover: "N \<le> span K d 0" by (simp add: span_def d_def)
  have lv: "index t ! l = level l" if "l < d" for l
    using that by (simp add: t_def)
  have ht: "highs t = hs" "depth t = d" "length (index t) = d" by (simp_all add: t_def)
  have "btree_ok K t"
    unfolding btree_ok_def
  proof (intro conjI allI impI)
    show "0 < depth t" by (simp add: ht d_def)
    show "length (index t) = depth t" by (simp add: ht)
    have "index t ! (d - 1) = level (d - 1)" by (rule lv) (simp add: d_def)
    then show "index t ! (depth t - 1) = highs t" by (simp add: ht level_def)
    show "length (highs t) \<le> span K (depth t) 0" using cover by (simp add: ht N_def)
  next
    fix l assume l: "l < depth t - 1"
    then have ld: "l < d" "l \<noteq> d - 1" by (simp_all add: ht)
    have il: "index t ! l = map (key l) [0..<K * N]" using lv [OF ld(1)] ld(2) by (simp add: level_def)
    show "K dvd length (index t ! l)" by (simp add: il)
    have "N * 1 \<le> N * span K d l" using span_pos [OF K, of d l] by (intro mult_le_mono2) simp
    then show "length (highs t) \<le> length (index t ! l) div K * span K (depth t) l"
      using K by (simp add: il ht N_def)
    fix j assume "j < length (index t ! l)"
    then show "index t ! l ! j = padded_high (highs t)
        (get_child K (j div K) (j mod K + 1) * span K (depth t) (l + 1) - 1)"
      by (simp add: il key_def ht)
  qed
  then show ?thesis by (intro exI [of _ t]) (simp add: t_def)
qed

lemma index_unique:
  fixes hs :: "('a::len) word list"
  assumes "sorted_wrt (<) hs"
    "i < length hs" "i = 0 \<or> hs ! (i - 1) < s" "s \<le> hs ! i"
    "j < length hs" "j = 0 \<or> hs ! (j - 1) < s" "s \<le> hs ! j"
  shows "j = i"
proof -
  have "s \<le> padded_high hs j" "s \<le> padded_high hs i"
    using assms(2,4,5,7) by (simp_all add: padded_high_def)
  then have "i \<le> j" "j \<le> i"
    using padded_high_ge_iff [OF assms(1,2,3,4), of j] padded_high_ge_iff [OF assms(1,5,6,7), of i]
    by simp_all
  then show ?thesis by simp
qed

text \<open>
  Claim C1.  Let the index of a table be the search tree over its highs (\<open>btree_ok\<close>).
  If the highs are strictly increasing and the sector of the request is at most the
  last high, \<^verbatim>\<open>__find_node\<close> returns the one index \<open>i\<close> with
  \<open>highs[i-1] < s \<le> highs[i]\<close>, where nothing is asked of \<open>highs[i-1]\<close> for \<open>i = 0\<close>.
  For a table with the highs 99 and 199, the sectors 0 and 99 give index 0 and the
  sectors 100 and 199 give index 1.
\<close>

theorem find_node_unique_index:
  fixes t :: "('a::len) word dm_table"
  assumes K: "0 < K" and ok: "btree_ok K t"
  shows "(sorted_wrt (<) (highs t) \<and> highs t \<noteq> [] \<and> b_rsector bh \<le> last (highs t) \<longrightarrow>
           (\<exists>i. find_node K t bh = Some i \<and> i < length (highs t) \<and>
                (i = 0 \<or> highs t ! (i - 1) < b_rsector bh) \<and> b_rsector bh \<le> highs t ! i \<and>
                (\<forall>j < length (highs t).
                    (j = 0 \<or> highs t ! (j - 1) < b_rsector bh) \<and> b_rsector bh \<le> highs t ! j
                    \<longrightarrow> j = i))) \<and>
         (7 < LENGTH('a) \<and> highs t = [99, 199] \<longrightarrow>
           (b_rsector bh = 0 \<or> b_rsector bh = 99 \<longrightarrow> find_node K t bh = Some 0) \<and>
           (b_rsector bh = 100 \<or> b_rsector bh = 199 \<longrightarrow> find_node K t bh = Some 1))"
proof (intro conjI impI)
  assume a: "sorted_wrt (<) (highs t) \<and> highs t \<noteq> [] \<and> b_rsector bh \<le> last (highs t)"
  then obtain i where i: "i < length (highs t)"
      "i = 0 \<or> highs t ! (i - 1) < b_rsector bh" "b_rsector bh \<le> highs t ! i"
    using least_index_exists [of "highs t" "b_rsector bh"] by blast
  have srt: "sorted_wrt (<) (highs t)" using a by simp
  have "find_node K t bh = Some i" using find_node_correct [OF ok K srt i] .
  moreover have "\<forall>j < length (highs t).
      (j = 0 \<or> highs t ! (j - 1) < b_rsector bh) \<and> b_rsector bh \<le> highs t ! j \<longrightarrow> j = i"
    using index_unique [OF srt i] by blast
  ultimately show "\<exists>i. find_node K t bh = Some i \<and> i < length (highs t) \<and>
      (i = 0 \<or> highs t ! (i - 1) < b_rsector bh) \<and> b_rsector bh \<le> highs t ! i \<and>
      (\<forall>j < length (highs t).
          (j = 0 \<or> highs t ! (j - 1) < b_rsector bh) \<and> b_rsector bh \<le> highs t ! j \<longrightarrow> j = i)"
    using i by blast
next
  assume a: "7 < LENGTH('a) \<and> highs t = [99, 199]" and s: "b_rsector bh = 0 \<or> b_rsector bh = 99"
  have len: "7 < LENGTH('a)" and hs: "highs t = [99, 199]" using a by simp_all
  have srt: "sorted_wrt (<) (highs t)" using hs two_target_order(4) [OF len] by simp
  have "b_rsector bh \<le> highs t ! 0" using s hs two_target_order(1) [OF len] by auto
  then show "find_node K t bh = Some 0"
    using find_node_correct [OF ok K srt, of 0 bh] hs by simp
next
  assume a: "7 < LENGTH('a) \<and> highs t = [99, 199]" and s: "b_rsector bh = 100 \<or> b_rsector bh = 199"
  have len: "7 < LENGTH('a)" and hs: "highs t = [99, 199]" using a by simp_all
  have srt: "sorted_wrt (<) (highs t)" using hs two_target_order(4) [OF len] by simp
  have "highs t ! (1 - 1) < b_rsector bh"
    using s hs two_target_order(2,4) [OF len] by auto
  moreover have "b_rsector bh \<le> highs t ! 1" using s hs two_target_order(3) [OF len] by auto
  ultimately show "find_node K t bh = Some 1"
    using find_node_correct [OF ok K srt, of 1 bh] hs by simp
qed

lemma btree_ok_five_targets: "btree_ok 2 five_targets"
  by (simp add: btree_ok_def five_targets_def span_def padded_high_def get_child_def
      less_Suc_eq numeral_2_eq_2)

lemma btree_ok_two_targets: "btree_ok 8 two_targets"
  by (simp add: btree_ok_def two_targets_def span_def)

theorem find_node_unique_index_witness:
  "find_node 2 five_targets (read_at 25) = Some 2 \<and>
   find_node 8 two_targets (read_at 0) = Some 0 \<and>
   find_node 8 two_targets (read_at 99) = Some 0 \<and>
   find_node 8 two_targets (read_at 100) = Some 1 \<and>
   find_node 8 two_targets (read_at 199) = Some 1"
proof -
  have five: "sorted_wrt (<) (highs five_targets) \<and> highs five_targets \<noteq> [] \<and>
      b_rsector (read_at 25) \<le> last (highs five_targets)"
    by (simp add: five_targets_def read_at_def)
  obtain i where i: "find_node 2 five_targets (read_at 25) = Some i"
    and u: "\<forall>j < length (highs five_targets).
      (j = 0 \<or> highs five_targets ! (j - 1) < b_rsector (read_at 25)) \<and>
      b_rsector (read_at 25) \<le> highs five_targets ! j \<longrightarrow> j = i"
    using find_node_unique_index [OF _ btree_ok_five_targets, of "read_at 25"] five by auto
  have "(2::nat) < length (highs five_targets) \<and>
      highs five_targets ! (2 - 1) < b_rsector (read_at 25) \<and>
      b_rsector (read_at 25) \<le> highs five_targets ! 2"
    by (simp add: five_targets_def read_at_def)
  then have "2 = i" using u by blast
  then have a: "find_node 2 five_targets (read_at 25) = Some 2" using i by simp
  have two: "7 < LENGTH(32) \<and> highs two_targets = [99, 199]"
    by (simp add: two_targets_def)
  have b: "find_node 8 two_targets (read_at s) = Some 0" if "s = 0 \<or> s = 99" for s
    using find_node_unique_index [OF _ btree_ok_two_targets, of "read_at s"] two that
    by (simp add: read_at_def)
  have c: "find_node 8 two_targets (read_at s) = Some 1" if "s = 100 \<or> s = 199" for s
    using find_node_unique_index [OF _ btree_ok_two_targets, of "read_at s"] two that
    by (simp add: read_at_def)
  show ?thesis using a b [of 0] b [of 99] c [of 100] c [of 199] by simp
qed

section \<open>The example states\<close>

lemma created_state_eq:
  "created_state = init_state
     \<lparr>devs := (\<lambda>_. None)(0 \<mapsto> blank_dev\<lparr>name := ''vol0'', devfs_entry := True\<rparr>),
      trace := [Devfs_register ''vol0'' 0]\<rparr>"
  by (simp add: created_state_def dm_create_def alloc_dev_def specific_dev_def MAX_DEVICES_def
      register_device_def upd_dev_def emit_def init_state_def)

lemma active_state_eq:
  "active_state = init_state
     \<lparr>devs := (\<lambda>_. None)(0 \<mapsto> \<lparr>name = ''vol0'', use_count = 0, state = {DM_ACTIVE},
                 map_table = Some 5, deferred = [], devfs_entry = True\<rparr>),
      block_size := (\<lambda>_. 0)(0 := 100),
      blksize_size := (\<lambda>_. 0)(0 := 1024),
      hardsect_sizes := (\<lambda>_. 0)(0 := 512),
      trace := [Devfs_register ''vol0'' 0, Register_disk 0 100]\<rparr>"
  by (simp add: active_state_def created_state_eq dm_activate_def dm_bind_def flush_deferred_io_def
      upd_dev_def emit_def init_state_def blank_dev_def is_active_def num_targets_def two_targets_def
      int_of_offset_def BLOCK_SIZE_def)

lemma mixed_state_eq:
  "mixed_state = init_state
     \<lparr>devs := (\<lambda>_. None)(0 \<mapsto> \<lparr>name = ''vol0'', use_count = 0, state = {DM_ACTIVE},
                 map_table = Some 7, deferred = [], devfs_entry = True\<rparr>),
      block_size := (\<lambda>_. 0)(0 := 200),
      blksize_size := (\<lambda>_. 0)(0 := 1024),
      hardsect_sizes := (\<lambda>_. 0)(0 := 512),
      trace := [Devfs_register ''vol0'' 0, Register_disk 0 200]\<rparr>"
  by (simp add: mixed_state_def created_state_eq dm_activate_def dm_bind_def flush_deferred_io_def
      upd_dev_def emit_def init_state_def blank_dev_def is_active_def num_targets_def
      mixed_targets_def int_of_offset_def BLOCK_SIZE_def)

section \<open>Opening the block device\<close>

text \<open>
  Claim C10.  \<^verbatim>\<open>dm_blk_open\<close> succeeds exactly when the minor is below \<^verbatim>\<open>MAX_DEVICES\<close>,
  its slot holds a device and that device is active.  In every other case it returns
  \<^verbatim>\<open>-ENXIO\<close> and changes nothing, so no use count changes.  When it succeeds, the use
  count of the device is one more than before and no other device changes.
\<close>

theorem dm_blk_open_active_only:
  "(fst (dm_blk_open i_rdev s) = Inr () \<longleftrightarrow>
      MINOR i_rdev < MAX_DEVICES \<and> (\<exists>md. devs s (MINOR i_rdev) = Some md \<and> is_active md)) \<and>
   (fst (dm_blk_open i_rdev s) \<noteq> Inr () \<longrightarrow> dm_blk_open i_rdev s = (Inl ENXIO, s)) \<and>
   (fst (dm_blk_open i_rdev s) = Inr () \<longrightarrow>
      (\<exists>md. devs s (MINOR i_rdev) = Some md \<and>
            devs (snd (dm_blk_open i_rdev s)) (MINOR i_rdev) =
              Some (md\<lparr>use_count := use_count md + 1\<rparr>)) \<and>
      (\<forall>m. m \<noteq> MINOR i_rdev \<longrightarrow> devs (snd (dm_blk_open i_rdev s)) m = devs s m))"
  by (auto simp: dm_blk_open_def Let_def upd_dev_def split: option.splits)

theorem dm_blk_open_active_only_witness:
  "fst (dm_blk_open 0 active_state) = Inr () \<and>
   map_option use_count (devs active_state 0) = Some 0 \<and>
   map_option use_count (devs (snd (dm_blk_open 0 active_state)) 0) = Some 1 \<and>
   dm_blk_open 0 created_state = (Inl ENXIO, created_state) \<and>
   dm_blk_open 64 active_state = (Inl ENXIO, active_state)"
proof -
  have a: "MINOR 0 < MAX_DEVICES \<and> (\<exists>md. devs active_state (MINOR 0) = Some md \<and> is_active md)"
    by (simp add: MINOR_def MAX_DEVICES_def active_state_eq is_active_def)
  have b: "\<not> (MINOR 0 < MAX_DEVICES \<and>
      (\<exists>md. devs created_state (MINOR 0) = Some md \<and> is_active md))"
    by (simp add: MINOR_def created_state_eq is_active_def blank_dev_def)
  have c: "\<not> (MINOR 64 < MAX_DEVICES \<and>
      (\<exists>md. devs active_state (MINOR 64) = Some md \<and> is_active md))"
    by (simp add: MINOR_def MAX_DEVICES_def)
  show ?thesis
    using dm_blk_open_active_only [of 0 active_state] dm_blk_open_active_only [of 0 created_state]
      dm_blk_open_active_only [of 64 active_state] a b c
    by (auto simp: MINOR_def active_state_eq)
qed

section \<open>Removing a device\<close>

text \<open>
  Claim C4 says that \<^verbatim>\<open>dm_remove\<close> succeeds only for a device that is not active.  It
  does not look at the state: the active device of \<open>active_state\<close>, with use count 0, is
  removed and its slot emptied.
\<close>

theorem dm_remove_active_counterexample:
  "map_option is_active (devs active_state 0) = Some True \<and>
   map_option use_count (devs active_state 0) = Some 0 \<and>
   map_option fst (dm_remove 0 active_state) = Some (Inr ()) \<and>
   devs (snd (the (dm_remove 0 active_state))) 0 = None"
  by (simp add: active_state_eq dm_remove_def unregister_device_def emit_def is_active_def)

text \<open>
  Claim C4, amended.  \<^verbatim>\<open>dm_remove\<close> looks at the use count alone.  With a use count
  other than 0 it returns \<^verbatim>\<open>-EPERM\<close> and changes nothing, so the slot stays occupied.
  With use count 0 it succeeds, active or not, and empties the slot of the device and
  no other.
\<close>

theorem dm_remove_use_count_only:
  assumes "devs s md = Some d"
  shows "(use_count d \<noteq> 0 \<longrightarrow> dm_remove md s = Some (Inl EPERM, s)) \<and>
         (use_count d = 0 \<longrightarrow>
            (\<exists>s'. dm_remove md s = Some (Inr (), s') \<and> devs s' md = None \<and>
                  (\<forall>m. m \<noteq> md \<longrightarrow> devs s' m = devs s m)))"
  using assms by (simp add: dm_remove_def unregister_device_def emit_def)

theorem dm_remove_use_count_only_witness:
  "dm_remove 0 (snd (dm_blk_open 0 active_state)) =
     Some (Inl EPERM, snd (dm_blk_open 0 active_state)) \<and>
   (\<exists>s'. dm_remove 0 created_state = Some (Inr (), s') \<and> devs s' 0 = None)"
proof -
  have a: "devs (snd (dm_blk_open 0 active_state)) 0 =
      Some \<lparr>name = ''vol0'', use_count = 1, state = {DM_ACTIVE},
                 map_table = Some 5, deferred = [], devfs_entry = True\<rparr>"
    by (simp add: dm_blk_open_def MINOR_def MAX_DEVICES_def active_state_eq is_active_def
        upd_dev_def)
  have b: "devs created_state 0 = Some (blank_dev\<lparr>name := ''vol0'', devfs_entry := True\<rparr>)"
    by (simp add: created_state_eq)
  show ?thesis
    using dm_remove_use_count_only [OF a] dm_remove_use_count_only [OF b]
    by (auto simp: blank_dev_def)
qed

section \<open>Activating a device\<close>

lemma sint32_small:
  fixes y :: "32 word"
  assumes "unat y < 2 ^ 31"
  shows "sint y = int (unat y)"
proof -
  have "int (unat y) < 2 ^ 31" using assms by (simp only: of_nat_less_numeral_power_cancel_iff)
  then have "uint y < 2 ^ 31" by (simp only: of_nat_unat)
  moreover have "- (2 ^ 31) \<le> uint y" by (rule order_trans [of _ 0]) simp_all
  ultimately have "signed_take_bit 31 (uint y) = uint y"
    by (intro signed_take_bit_int_eq_self)
  then show ?thesis by (simp add: sint_uint)
qed

lemma int_of_offset_half:
  fixes w :: "('a::len) word"
  assumes "unat w + 1 < 2 ^ LENGTH('a)" "unat w + 1 < 2 ^ 32"
  shows "int_of_offset (drop_bit 1 (w + 1)) = int ((unat w + 1) div 2)"
proof -
  have a: "unat (w + 1) = unat w + 1" using assms(1) by (metis unat_add_lem unsigned_1)
  have b: "unat (drop_bit 1 (w + 1)) = (unat w + 1) div 2"
    using a by (simp add: drop_bit_nat_def unat_drop_bit_eq)
  have "unat (ucast (drop_bit 1 (w + 1)) :: 32 word) = take_bit 32 (unat (drop_bit 1 (w + 1)))"
    by (simp add: unsigned_ucast_eq)
  also have "\<dots> = (unat w + 1) div 2"
    unfolding b using assms(2) by (intro take_bit_nat_eq_self) simp
  finally have c: "unat (ucast (drop_bit 1 (w + 1)) :: 32 word) = (unat w + 1) div 2" .
  have "(unat w + 1) div 2 < 2 ^ 31" using assms(2) by simp
  then show ?thesis unfolding int_of_offset_def using c sint32_small by metis
qed

lemma int_of_offset_wrap:
  fixes w :: "('a::len) word"
  assumes "unat w + 1 = 2 ^ LENGTH('a)"
  shows "int_of_offset (drop_bit 1 (w + 1)) = 0"
proof -
  have "w + 1 = word_of_nat (unat w + 1)" by simp
  also have "\<dots> = 0" unfolding assms by simp
  finally show ?thesis by (simp add: int_of_offset_def)
qed


lemma flush_loop_eq:
  "flush_loop ds s = s\<lparr>trace := trace s @ map (\<lambda>c. Generic_make_request (di_rw c) (di_bh c)) ds\<rparr>"
  by (induction ds arbitrary: s) (simp_all add: emit_def)

lemma dm_activate_ok:
  fixes s :: "('a::len) word dm"
  assumes "tables s t = Some tb" "devs s md = Some d" "num_targets tb \<noteq> 0" "\<not> is_active d"
  shows "dm_activate md t s =
     Some (Inr (),
       s\<lparr>devs := (devs s)(md \<mapsto>
             d\<lparr>map_table := Some t, state := insert DM_ACTIVE (state d), deferred := []\<rparr>),
         block_size := (block_size s)
             (md := int_of_offset (drop_bit 1 (highs tb ! (num_targets tb - 1) + 1))),
         blksize_size := (blksize_size s)(md := BLOCK_SIZE),
         hardsect_sizes := (hardsect_sizes s)(md := hardsect_size tb),
         trace := trace s @
           Register_disk md (int_of_offset (drop_bit 1 (highs tb ! (num_targets tb - 1) + 1))) #
           map (\<lambda>c. Generic_make_request (di_rw c) (di_bh c)) (deferred d)\<rparr>)"
  using assms
  by (simp add: dm_activate_def dm_bind_def flush_deferred_io_def flush_loop_eq upd_dev_def
      emit_def Let_def)

text \<open>
  Claim C9 says that a successful \<^verbatim>\<open>dm_activate\<close> sets the block size of the minor to
  \<open>(last_high + 1) / 2\<close>.  \<^verbatim>\<open>__bind\<close> adds 1 in the arithmetic of \<^verbatim>\<open>offset_t\<close>, where the sum
  wraps: for the table whose last high is \<open>2\<^sup>3\<^sup>2 - 1\<close>, with an \<^verbatim>\<open>offset_t\<close> of 32 bits,
  \<^verbatim>\<open>dm_activate\<close> succeeds and the block size is 0, where \<open>(last_high + 1) / 2\<close> is
  \<open>2147483648\<close>.
\<close>

theorem block_size_wraps_counterexample:
  "map_option fst (dm_activate 0 8 last_sector_state) = Some (Inr ()) \<and>
   block_size (snd (the (dm_activate 0 8 last_sector_state))) 0 = 0 \<and>
   unat (last (highs last_sector_table)) = 4294967295 \<and>
   (unat (last (highs last_sector_table)) + 1) div 2 = 2147483648"
proof -
  have "dm_activate 0 8 last_sector_state =
      Some (Inr (),
        last_sector_state\<lparr>devs := (devs last_sector_state)(0 \<mapsto>
              blank_dev\<lparr>name := ''vol0'', devfs_entry := True, map_table := Some 8,
                state := {DM_ACTIVE}, deferred := []\<rparr>),
          block_size := (block_size last_sector_state)(0 := 0),
          blksize_size := (blksize_size last_sector_state)(0 := BLOCK_SIZE),
          hardsect_sizes := (hardsect_sizes last_sector_state)(0 := 512),
          trace := trace last_sector_state @ [Register_disk 0 0]\<rparr>)"
    using dm_activate_ok [of last_sector_state 8 last_sector_table 0
        "blank_dev\<lparr>name := ''vol0'', devfs_entry := True\<rparr>"]
    by (simp add: last_sector_state_def created_state_eq num_targets_def last_sector_table_def
        is_active_def blank_dev_def int_of_offset_def)
  then show ?thesis by (simp add: last_sector_table_def)
qed

text \<open>
  Claim C9, amended.  For a device and a table in store: \<^verbatim>\<open>dm_activate\<close> returns \<^verbatim>\<open>-EINVAL\<close>
  when the table has no targets, and \<^verbatim>\<open>-EPERM\<close> when it has targets and the device is
  active; either way nothing changes.  Otherwise it succeeds: the device has the table
  bound, the bit \<^verbatim>\<open>DM_ACTIVE\<close> set and an empty deferred list; the block size of the
  minor is \<^verbatim>\<open>(last_high + 1) >> 1\<close> in the arithmetic of \<^verbatim>\<open>offset_t\<close>, converted to \<^verbatim>\<open>int\<close>:
  this is \<open>(last_high + 1) div 2\<close> when \<open>last_high + 1\<close> fits \<^verbatim>\<open>offset_t\<close> and 32 bits, and
  0 when \<open>last_high\<close> is the largest value of \<^verbatim>\<open>offset_t\<close>; the hardware sector size is
  the table's; the disk is registered and then every deferred request is resubmitted,
  head of the deferred list first.
\<close>

theorem dm_activate_cases:
  fixes s :: "('a::len) word dm"
  assumes "tables s t = Some tb" "devs s md = Some d"
  shows "(num_targets tb = 0 \<longrightarrow> dm_activate md t s = Some (Inl EINVAL, s)) \<and>
         (num_targets tb \<noteq> 0 \<and> is_active d \<longrightarrow> dm_activate md t s = Some (Inl EPERM, s)) \<and>
         (num_targets tb \<noteq> 0 \<and> \<not> is_active d \<longrightarrow>
            (\<exists>s'. dm_activate md t s = Some (Inr (), s') \<and>
               devs s' md = Some (d\<lparr>map_table := Some t, state := insert DM_ACTIVE (state d),
                                    deferred := []\<rparr>) \<and>
               (\<forall>m. m \<noteq> md \<longrightarrow> devs s' m = devs s m) \<and>
               block_size s' md = int_of_offset (drop_bit 1 (last (highs tb) + 1)) \<and>
               (unat (last (highs tb)) + 1 < 2 ^ LENGTH('a) \<and> unat (last (highs tb)) + 1 < 2 ^ 32
                  \<longrightarrow> block_size s' md = int ((unat (last (highs tb)) + 1) div 2)) \<and>
               (unat (last (highs tb)) + 1 = 2 ^ LENGTH('a) \<longrightarrow> block_size s' md = 0) \<and>
               hardsect_sizes s' md = hardsect_size tb \<and>
               trace s' = trace s @ Register_disk md (block_size s' md) #
                 map (\<lambda>c. Generic_make_request (di_rw c) (di_bh c)) (deferred d)))"
proof (intro conjI impI)
  assume "num_targets tb = 0"
  then show "dm_activate md t s = Some (Inl EINVAL, s)"
    using assms by (simp add: dm_activate_def)
next
  assume "num_targets tb \<noteq> 0 \<and> is_active d"
  then show "dm_activate md t s = Some (Inl EPERM, s)"
    using assms by (simp add: dm_activate_def)
next
  assume a: "num_targets tb \<noteq> 0 \<and> \<not> is_active d"
  then have ne: "highs tb \<noteq> []" by (simp add: num_targets_def)
  have lst: "highs tb ! (num_targets tb - 1) = last (highs tb)"
    using ne by (simp add: num_targets_def last_conv_nth)
  have half: "unat (last (highs tb)) + 1 < 2 ^ LENGTH('a) \<and> unat (last (highs tb)) + 1 < 2 ^ 32
      \<longrightarrow> int_of_offset (drop_bit 1 (last (highs tb) + 1)) = int ((unat (last (highs tb)) + 1) div 2)"
    using int_of_offset_half [of "last (highs tb)"] by blast
  have wrap: "unat (last (highs tb)) + 1 = 2 ^ LENGTH('a)
      \<longrightarrow> int_of_offset (drop_bit 1 (last (highs tb) + 1)) = 0"
    using int_of_offset_wrap [of "last (highs tb)"] by blast
  show "\<exists>s'. dm_activate md t s = Some (Inr (), s') \<and>
      devs s' md = Some (d\<lparr>map_table := Some t, state := insert DM_ACTIVE (state d),
                           deferred := []\<rparr>) \<and>
      (\<forall>m. m \<noteq> md \<longrightarrow> devs s' m = devs s m) \<and>
      block_size s' md = int_of_offset (drop_bit 1 (last (highs tb) + 1)) \<and>
      (unat (last (highs tb)) + 1 < 2 ^ LENGTH('a) \<and> unat (last (highs tb)) + 1 < 2 ^ 32
         \<longrightarrow> block_size s' md = int ((unat (last (highs tb)) + 1) div 2)) \<and>
      (unat (last (highs tb)) + 1 = 2 ^ LENGTH('a) \<longrightarrow> block_size s' md = 0) \<and>
      hardsect_sizes s' md = hardsect_size tb \<and>
      trace s' = trace s @ Register_disk md (block_size s' md) #
        map (\<lambda>c. Generic_make_request (di_rw c) (di_bh c)) (deferred d)"
    unfolding dm_activate_ok [OF assms conjunct1 [OF a] conjunct2 [OF a]] lst
    using half wrap by simp
qed

theorem dm_activate_cases_witness:
  "dm_activate 0 5 created_state = Some (Inr (), active_state) \<and>
   block_size active_state 0 = 100 \<and> hardsect_sizes active_state 0 = 512 \<and>
   dm_activate 0 6 active_state = Some (Inl EPERM, active_state) \<and>
   dm_activate 0 3 (created_state\<lparr>tables := (tables created_state)(3 \<mapsto> two_targets\<lparr>highs := []\<rparr>)\<rparr>) =
     Some (Inl EINVAL, created_state\<lparr>tables := (tables created_state)(3 \<mapsto> two_targets\<lparr>highs := []\<rparr>)\<rparr>) \<and>
   (\<exists>s'. dm_activate 0 8 last_sector_state = Some (Inr (), s') \<and> block_size s' 0 = 0)"
proof -
  let ?e = "created_state\<lparr>tables := (tables created_state)(3 \<mapsto> two_targets\<lparr>highs := []\<rparr>)\<rparr>"
  have c: "tables created_state 5 = Some two_targets"
      "devs created_state 0 = Some (blank_dev\<lparr>name := ''vol0'', devfs_entry := True\<rparr>)"
    by (simp_all add: created_state_eq init_state_def)
  have n: "num_targets two_targets \<noteq> 0 \<and> \<not> is_active (blank_dev\<lparr>name := ''vol0'', devfs_entry := True\<rparr>)"
    by (simp add: num_targets_def two_targets_def is_active_def blank_dev_def)
  obtain s' where s': "dm_activate 0 5 created_state = Some (Inr (), s')"
    using dm_activate_cases [OF c] n by blast
  then have eq: "s' = active_state" by (simp add: active_state_def)
  have a: "tables active_state 6 = Some five_targets"
      "devs active_state 0 = Some \<lparr>name = ''vol0'', use_count = 0, state = {DM_ACTIVE},
                 map_table = Some 5, deferred = [], devfs_entry = True\<rparr>"
    by (simp_all add: active_state_eq init_state_def)
  have "dm_activate 0 6 active_state = Some (Inl EPERM, active_state)"
    using dm_activate_cases [OF a] by (simp add: num_targets_def five_targets_def is_active_def)
  moreover have e: "tables ?e 3 = Some (two_targets\<lparr>highs := []\<rparr>)"
      "devs ?e 0 = Some (blank_dev\<lparr>name := ''vol0'', devfs_entry := True\<rparr>)"
    by (simp_all add: created_state_eq)
  have "dm_activate 0 3 ?e = Some (Inl EINVAL, ?e)"
    using dm_activate_cases [OF e] by (simp add: num_targets_def)
  moreover have l: "tables last_sector_state 8 = Some last_sector_table"
      "devs last_sector_state 0 = Some (blank_dev\<lparr>name := ''vol0'', devfs_entry := True\<rparr>)"
    by (simp_all add: last_sector_state_def created_state_eq)
  have m: "num_targets last_sector_table \<noteq> 0 \<and>
      \<not> is_active (blank_dev\<lparr>name := ''vol0'', devfs_entry := True\<rparr>) \<and>
      unat (last (highs last_sector_table)) + 1 = 2 ^ LENGTH(32)"
    by (simp add: num_targets_def last_sector_table_def is_active_def blank_dev_def)
  have "\<exists>s'. dm_activate 0 8 last_sector_state = Some (Inr (), s') \<and> block_size s' 0 = 0"
    using dm_activate_cases [OF l] m by blast
  ultimately show ?thesis using s' eq by (simp add: active_state_eq)
qed

section \<open>The deferred list\<close>

lemma defer_all_eq:
  "devs s md = Some d \<Longrightarrow> DM_ACTIVE \<notin> state d \<Longrightarrow>
   defer_all md rs s =
     Some (s\<lparr>devs := (devs s)(md \<mapsto>
        d\<lparr>deferred := rev (map (\<lambda>(bh, rw). \<lparr>di_bh = bh, di_rw = rw\<rparr>) rs) @ deferred d\<rparr>)\<rparr>)"
proof (induction rs arbitrary: s d)
  case Nil
  have "(devs s)(md \<mapsto> d) = devs s" using Nil(1) by (rule map_upd_triv)
  then show ?case by simp
next
  case (Cons r rs)
  obtain bh rw where r: "r = (bh, rw)" by (cases r)
  let ?d1 = "d\<lparr>deferred := \<lparr>di_bh = bh, di_rw = rw\<rparr> # deferred d\<rparr>"
  let ?s1 = "s\<lparr>devs := (devs s)(md \<mapsto> ?d1)\<rparr>"
  have q: "queue_io md bh rw True s = Some (Inr 1, ?s1)"
    using Cons.prems by (simp add: queue_io_def upd_dev_def)
  have "defer_all md rs ?s1 =
      Some (?s1\<lparr>devs := (devs ?s1)(md \<mapsto>
        ?d1\<lparr>deferred := rev (map (\<lambda>(bh, rw). \<lparr>di_bh = bh, di_rw = rw\<rparr>) rs) @ deferred ?d1\<rparr>)\<rparr>)"
    using Cons.prems by (intro Cons.IH) simp_all
  then have ih: "defer_all md rs ?s1 =
      Some (s\<lparr>devs := (devs s)(md \<mapsto>
        d\<lparr>deferred := rev (map (\<lambda>(bh, rw). \<lparr>di_bh = bh, di_rw = rw\<rparr>) ((bh, rw) # rs)) @
               deferred d\<rparr>)\<rparr>)"
    by simp
  have "defer_all md ((bh, rw) # rs) s = defer_all md rs ?s1" by (simp add: q)
  then show ?case unfolding r ih .
qed

text \<open>
  Claim C8.  On a device that is not active, \<^verbatim>\<open>queue_io\<close> puts each request at the head
  of the deferred list: after the requests \<open>rs\<close> have been deferred in this order, the
  list is their reverse followed by what it held before.  \<^verbatim>\<open>__flush_deferred_io\<close> then
  hands the requests to \<^verbatim>\<open>generic_make_request\<close> in the order of the list, that is in
  the reverse of their arrival, and leaves the deferred list empty.
\<close>

theorem deferred_replay_reversed:
  assumes "devs s md = Some d" "DM_ACTIVE \<notin> state d"
  shows "\<exists>s1 s2. defer_all md rs s = Some s1 \<and>
           devs s1 md = Some (d\<lparr>deferred :=
              rev (map (\<lambda>(bh, rw). \<lparr>di_bh = bh, di_rw = rw\<rparr>) rs) @ deferred d\<rparr>) \<and>
           flush_deferred_io md s1 = Some s2 \<and>
           trace s2 = trace s @ rev (map (\<lambda>(bh, rw). Generic_make_request rw bh) rs) @
              map (\<lambda>c. Generic_make_request (di_rw c) (di_bh c)) (deferred d) \<and>
           devs s2 md = Some (d\<lparr>deferred := []\<rparr>)"
  unfolding defer_all_eq [OF assms]
  by (simp add: flush_deferred_io_def flush_loop_eq upd_dev_def rev_map split_def)

theorem deferred_replay_reversed_witness:
  "\<exists>s1 s2. defer_all 0 [(read_at 1, 0), (read_at 2, 0), (read_at 3, 1)] created_state = Some s1 \<and>
      map_option deferred (devs s1 0) =
        Some [\<lparr>di_bh = read_at 3, di_rw = 1\<rparr>, \<lparr>di_bh = read_at 2, di_rw = 0\<rparr>,
              \<lparr>di_bh = read_at 1, di_rw = 0\<rparr>] \<and>
      flush_deferred_io 0 s1 = Some s2 \<and>
      trace s2 = trace created_state @
        [Generic_make_request 1 (read_at 3), Generic_make_request 0 (read_at 2),
         Generic_make_request 0 (read_at 1)] \<and>
      map_option deferred (devs s2 0) = Some []"
proof -
  have c: "devs created_state 0 = Some (blank_dev\<lparr>name := ''vol0'', devfs_entry := True\<rparr>)"
      "DM_ACTIVE \<notin> state (blank_dev\<lparr>name := ''vol0'', devfs_entry := True\<rparr>)"
    by (simp_all add: created_state_eq blank_dev_def)
  obtain s1 s2 where
    "defer_all 0 [(read_at 1, 0), (read_at 2, 0), (read_at 3, 1)] created_state = Some s1"
    "devs s1 0 = Some (blank_dev\<lparr>name := ''vol0'', devfs_entry := True, deferred :=
        rev (map (\<lambda>(bh, rw). \<lparr>di_bh = bh, di_rw = rw\<rparr>)
          [(read_at 1, 0), (read_at 2, 0), (read_at 3, 1)]) @ []\<rparr>)"
    "flush_deferred_io 0 s1 = Some s2"
    "trace s2 = trace created_state @
        rev (map (\<lambda>(bh, rw). Generic_make_request rw bh)
          [(read_at 1, 0), (read_at 2, 0), (read_at 3, 1)]) @ []"
    "devs s2 0 = Some (blank_dev\<lparr>name := ''vol0'', devfs_entry := True, deferred := []\<rparr>)"
    using deferred_replay_reversed [OF c, of "[(read_at 1, 0), (read_at 2, 0), (read_at 3, 1)]"]
    by (auto simp: blank_dev_def)
  then show ?thesis by (intro exI [of _ s1] exI [of _ s2]) simp
qed

section \<open>Mapping a request\<close>

lemma map_buffer_hooked:
  assumes "devs s md = Some d" "map_table d = Some t" "tables s t = Some tb"
    "leaf < length (targets tb)"
    "tt_map (tgt_type (targets tb ! leaf)) bh rw (tgt_private (targets tb ! leaf)) = (r, bh1)"
    "ih \<noteq> 0" "0 < r"
  shows "map_buffer md bh rw leaf ih s =
     Some (1, bh1\<lparr>b_end_io := Dec_pending, b_private := ih\<rparr>,
       s\<lparr>io_hooks := (io_hooks s)(ih \<mapsto>
            \<lparr>ih_table = t, ih_target = leaf, ih_rw = rw,
             ih_end_io = b_end_io bh, ih_context = b_private bh\<rparr>),
         tables := (tables s)(t \<mapsto> tb\<lparr>pending := pending tb + 1\<rparr>)\<rparr>)"
  using assms by (simp add: map_buffer_def Let_def upd_table_def)

lemma map_buffer_unhooked:
  assumes "devs s md = Some d" "map_table d = Some t" "tables s t = Some tb"
    "leaf < length (targets tb)"
    "tt_map (tgt_type (targets tb ! leaf)) bh rw (tgt_private (targets tb ! leaf)) = (r, bh1)"
    "ih \<noteq> 0" "r \<le> 0"
  shows "map_buffer md bh rw leaf ih s =
     Some (if r = 0 then 1 else 0, bh1,
       s\<lparr>io_hooks := (io_hooks s)(ih := None), trace := trace s @ [Kmem_cache_free ih]\<rparr>)"
  using assms by (simp add: map_buffer_def Let_def free_io_hook_def emit_def)


lemma map_buffer_no_hook:
  assumes "devs s md = Some d" "map_table d = Some t" "tables s t = Some tb"
    "leaf < length (targets tb)"
  shows "map_buffer md bh rw leaf 0 s = Some (0, bh, s)"
  using assms by (simp add: map_buffer_def Let_def)

lemma request_active:
  assumes "MINOR (b_rdev bh) < MAX_DEVICES" "devs s (MINOR (b_rdev bh)) = Some d"
    "map_table d = Some t" "DM_ACTIVE \<in> state d" "tables s t = Some tb"
    "find_node K tb bh = Some leaf"
  shows "request K rw bh di ih s =
     (case map_buffer (MINOR (b_rdev bh)) bh rw leaf ih s of
        None \<Rightarrow> None
      | Some (r, bh1, s1) \<Rightarrow>
          if r = 0 then Some (0, bh1, buffer_IO_error bh1 s1) else Some (1, bh1, s1))"
  using assms by (simp add: request_def request_map_def Let_def)

text \<open>
  Claim C6.  Let the device \<open>md\<close> have the table \<open>t\<close> bound, let \<open>leaf\<close> be a target of it
  and let the target's map function return \<open>r\<close> and leave the request as \<open>bh1\<close>.  With a
  hook at \<open>ih\<close>: for \<open>r > 0\<close>, \<^verbatim>\<open>__map_buffer\<close> returns 1, the pending count of the table is
  one more, the request completes into \<^verbatim>\<open>dec_pending\<close> with the hook as its private
  value, and the hook holds the table, the target, the direction and the request's
  own completion routine and private value; for \<open>r = 0\<close> it returns 1 and for \<open>r < 0\<close> it
  returns 0, in both cases with the hook freed, the request not hooked and the pending
  count as before.  Without a hook (\<open>ih = 0\<close>) it returns 0 and changes nothing.
  For a request that \<^verbatim>\<open>request\<close> maps on the active device: it returns 1 when
  \<^verbatim>\<open>__map_buffer\<close> does, and otherwise returns 0 after \<^verbatim>\<open>buffer_IO_error\<close>, the request's
  completion routine called with \<open>uptodate = 0\<close>; when the hook allocation fails, that
  call is the only change of the state.
\<close>

theorem map_buffer_outcomes:
  assumes "devs s md = Some d" "map_table d = Some t" "tables s t = Some tb"
    "leaf < length (targets tb)"
    "tt_map (tgt_type (targets tb ! leaf)) bh rw (tgt_private (targets tb ! leaf)) = (r, bh1)"
  shows "(ih \<noteq> 0 \<and> 0 < r \<longrightarrow>
           (\<exists>s'. map_buffer md bh rw leaf ih s =
                   Some (1, bh1\<lparr>b_end_io := Dec_pending, b_private := ih\<rparr>, s') \<and>
                 tables s' t = Some (tb\<lparr>pending := pending tb + 1\<rparr>) \<and>
                 io_hooks s' ih =
                   Some \<lparr>ih_table = t, ih_target = leaf, ih_rw = rw,
                         ih_end_io = b_end_io bh, ih_context = b_private bh\<rparr> \<and>
                 trace s' = trace s)) \<and>
         (ih \<noteq> 0 \<and> r \<le> 0 \<longrightarrow>
           (\<exists>s'. map_buffer md bh rw leaf ih s = Some (if r = 0 then 1 else 0, bh1, s') \<and>
                 tables s' = tables s \<and> io_hooks s' ih = None \<and>
                 trace s' = trace s @ [Kmem_cache_free ih])) \<and>
         (ih = 0 \<longrightarrow> map_buffer md bh rw leaf ih s = Some (0, bh, s)) \<and>
         (md = MINOR (b_rdev bh) \<and> md < MAX_DEVICES \<and> DM_ACTIVE \<in> state d \<and>
            find_node K tb bh = Some leaf \<longrightarrow>
            (ih \<noteq> 0 \<and> 0 < r \<longrightarrow>
               (\<exists>s'. request K rw bh di ih s =
                       Some (1, bh1\<lparr>b_end_io := Dec_pending, b_private := ih\<rparr>, s') \<and>
                     tables s' t = Some (tb\<lparr>pending := pending tb + 1\<rparr>) \<and>
                     trace s' = trace s)) \<and>
            (ih \<noteq> 0 \<and> r = 0 \<longrightarrow>
               (\<exists>s'. request K rw bh di ih s = Some (1, bh1, s') \<and> tables s' = tables s \<and>
                     trace s' = trace s @ [Kmem_cache_free ih])) \<and>
            (ih \<noteq> 0 \<and> r < 0 \<longrightarrow>
               (\<exists>s'. request K rw bh di ih s = Some (0, bh1, s') \<and> tables s' = tables s \<and>
                     trace s' = trace s @ [Kmem_cache_free ih, End_io (b_end_io bh1) bh1 0])) \<and>
            (ih = 0 \<longrightarrow>
               request K rw bh di ih s =
                 Some (0, bh, s\<lparr>trace := trace s @ [End_io (b_end_io bh) bh 0]\<rparr>)))"
proof (intro conjI impI)
  assume "ih \<noteq> 0 \<and> 0 < r"
  then show "\<exists>s'. map_buffer md bh rw leaf ih s =
                   Some (1, bh1\<lparr>b_end_io := Dec_pending, b_private := ih\<rparr>, s') \<and>
                 tables s' t = Some (tb\<lparr>pending := pending tb + 1\<rparr>) \<and>
                 io_hooks s' ih =
                   Some \<lparr>ih_table = t, ih_target = leaf, ih_rw = rw,
                         ih_end_io = b_end_io bh, ih_context = b_private bh\<rparr> \<and>
                 trace s' = trace s"
    using map_buffer_hooked [OF assms, of ih] by simp
next
  assume "ih \<noteq> 0 \<and> r \<le> 0"
  then show "\<exists>s'. map_buffer md bh rw leaf ih s = Some (if r = 0 then 1 else 0, bh1, s') \<and>
                 tables s' = tables s \<and> io_hooks s' ih = None \<and>
                 trace s' = trace s @ [Kmem_cache_free ih]"
    using map_buffer_unhooked [OF assms, of ih] by simp
next
  assume "ih = 0"
  then show "map_buffer md bh rw leaf ih s = Some (0, bh, s)"
    using map_buffer_no_hook [OF assms(1-4)] by simp
next
  assume a: "md = MINOR (b_rdev bh) \<and> md < MAX_DEVICES \<and> DM_ACTIVE \<in> state d \<and>
            find_node K tb bh = Some leaf" and b: "ih \<noteq> 0 \<and> 0 < r"
  have rq: "request K rw bh di ih s =
     (case map_buffer md bh rw leaf ih s of
        None \<Rightarrow> None
      | Some (r, bh1, s1) \<Rightarrow>
          if r = 0 then Some (0, bh1, buffer_IO_error bh1 s1) else Some (1, bh1, s1))"
    using request_active [of bh s d t tb K leaf rw di ih] a assms(1-3) by simp
  show "\<exists>s'. request K rw bh di ih s =
                       Some (1, bh1\<lparr>b_end_io := Dec_pending, b_private := ih\<rparr>, s') \<and>
                     tables s' t = Some (tb\<lparr>pending := pending tb + 1\<rparr>) \<and>
                     trace s' = trace s"
    unfolding rq using map_buffer_hooked [OF assms, of ih] b by simp
next
  assume a: "md = MINOR (b_rdev bh) \<and> md < MAX_DEVICES \<and> DM_ACTIVE \<in> state d \<and>
            find_node K tb bh = Some leaf" and b: "ih \<noteq> 0 \<and> r = 0"
  have rq: "request K rw bh di ih s =
     (case map_buffer md bh rw leaf ih s of
        None \<Rightarrow> None
      | Some (r, bh1, s1) \<Rightarrow>
          if r = 0 then Some (0, bh1, buffer_IO_error bh1 s1) else Some (1, bh1, s1))"
    using request_active [of bh s d t tb K leaf rw di ih] a assms(1-3) by simp
  show "\<exists>s'. request K rw bh di ih s = Some (1, bh1, s') \<and> tables s' = tables s \<and>
                     trace s' = trace s @ [Kmem_cache_free ih]"
    unfolding rq using map_buffer_unhooked [OF assms, of ih] b by simp
next
  assume a: "md = MINOR (b_rdev bh) \<and> md < MAX_DEVICES \<and> DM_ACTIVE \<in> state d \<and>
            find_node K tb bh = Some leaf" and b: "ih \<noteq> 0 \<and> r < 0"
  have rq: "request K rw bh di ih s =
     (case map_buffer md bh rw leaf ih s of
        None \<Rightarrow> None
      | Some (r, bh1, s1) \<Rightarrow>
          if r = 0 then Some (0, bh1, buffer_IO_error bh1 s1) else Some (1, bh1, s1))"
    using request_active [of bh s d t tb K leaf rw di ih] a assms(1-3) by simp
  show "\<exists>s'. request K rw bh di ih s = Some (0, bh1, s') \<and> tables s' = tables s \<and>
                     trace s' = trace s @ [Kmem_cache_free ih, End_io (b_end_io bh1) bh1 0]"
    unfolding rq using map_buffer_unhooked [OF assms, of ih] b
    by (simp add: buffer_IO_error_def emit_def)
next
  assume a: "md = MINOR (b_rdev bh) \<and> md < MAX_DEVICES \<and> DM_ACTIVE \<in> state d \<and>
            find_node K tb bh = Some leaf" and b: "ih = 0"
  have rq: "request K rw bh di ih s =
     (case map_buffer md bh rw leaf ih s of
        None \<Rightarrow> None
      | Some (r, bh1, s1) \<Rightarrow>
          if r = 0 then Some (0, bh1, buffer_IO_error bh1 s1) else Some (1, bh1, s1))"
    using request_active [of bh s d t tb K leaf rw di ih] a assms(1-3) by simp
  show "request K rw bh di ih s =
                 Some (0, bh, s\<lparr>trace := trace s @ [End_io (b_end_io bh) bh 0]\<rparr>)"
    unfolding rq using map_buffer_no_hook [OF assms(1-4), of bh rw] b
    by (simp add: buffer_IO_error_def emit_def)
qed


lemma btree_ok_mixed_targets: "btree_ok 8 mixed_targets"
  by (simp add: btree_ok_def mixed_targets_def span_def)

lemma find_node_mixed_targets:
  "find_node 8 mixed_targets (read_at 7) = Some 0"
  "find_node 8 mixed_targets (read_at 150) = Some 1"
  "find_node 8 mixed_targets (read_at 250) = Some 2"
  "find_node 8 mixed_targets (read_at 350) = Some 3"
  by (rule find_node_correct [OF btree_ok_mixed_targets];
      simp add: mixed_targets_def read_at_def)+

lemma mixed_state_dev:
  "devs mixed_state 0 = Some \<lparr>name = ''vol0'', use_count = 0, state = {DM_ACTIVE},
      map_table = Some 7, deferred = [], devfs_entry = True\<rparr>"
  "tables mixed_state 7 = Some mixed_targets"
  by (simp_all add: mixed_state_eq init_state_def)

theorem map_buffer_outcomes_witness:
  "(\<exists>s'. request 8 0 (read_at 7) True 11 mixed_state =
       Some (1, (read_at 1007)\<lparr>b_rdev := 2049, b_end_io := Dec_pending, b_private := 11\<rparr>, s') \<and>
       map_option pending (tables s' 7) = Some 1 \<and> trace s' = trace mixed_state) \<and>
   (\<exists>s'. request 8 0 (read_at 250) True 11 mixed_state = Some (1, read_at 250, s') \<and>
       tables s' = tables mixed_state \<and>
       trace s' = trace mixed_state @ [Kmem_cache_free 11]) \<and>
   (\<exists>s'. request 8 0 (read_at 350) True 11 mixed_state = Some (0, read_at 350, s') \<and>
       tables s' = tables mixed_state \<and>
       trace s' = trace mixed_state @
         [Kmem_cache_free 11, End_io (Caller_end_io 7) (read_at 350) 0]) \<and>
   request 8 0 (read_at 7) True 0 mixed_state =
     Some (0, read_at 7,
       mixed_state\<lparr>trace := trace mixed_state @ [End_io (Caller_end_io 7) (read_at 7) 0]\<rparr>)"
proof -
  have m1: "tt_map (tgt_type (targets mixed_targets ! 0)) (read_at 7) 0
      (tgt_private (targets mixed_targets ! 0)) = (1, (read_at 1007)\<lparr>b_rdev := 2049\<rparr>)"
    by (simp add: mixed_targets_def linear_def linear_type_def read_at_def)
  have m2: "tt_map (tgt_type (targets mixed_targets ! 2)) (read_at 250) 0
      (tgt_private (targets mixed_targets ! 2)) = (0, read_at 250)"
    by (simp add: mixed_targets_def keeping_type_def linear_type_def)
  have m3: "tt_map (tgt_type (targets mixed_targets ! 3)) (read_at 350) 0
      (tgt_private (targets mixed_targets ! 3)) = (- 5, read_at 350)"
    by (simp add: mixed_targets_def failing_type_def linear_type_def)
  have l: "0 < length (targets mixed_targets)" "2 < length (targets mixed_targets)"
      "3 < length (targets mixed_targets)"
    by (simp_all add: mixed_targets_def)
  have mt: "map_table \<lparr>name = ''vol0'', use_count = 0, state = {DM_ACTIVE},
      map_table = Some 7, deferred = [], devfs_entry = True\<rparr> = Some 7" by simp
  note a = map_buffer_outcomes [OF mixed_state_dev(1) mt mixed_state_dev(2) l(1) m1, of 11 8 True]
  note b = map_buffer_outcomes [OF mixed_state_dev(1) mt mixed_state_dev(2) l(2) m2, of 11 8 True]
  note c = map_buffer_outcomes [OF mixed_state_dev(1) mt mixed_state_dev(2) l(3) m3, of 11 8 True]
  note d = map_buffer_outcomes [OF mixed_state_dev(1) mt mixed_state_dev(2) l(1) m1, of 0 8 True]
  have rd: "b_rdev (read_at x) = 0" "b_end_io (read_at x) = Caller_end_io 7" for x
    by (simp_all add: read_at_def)
  have p: "pending mixed_targets = 0" by (simp add: mixed_targets_def)
  show ?thesis
    using a b c d
    by (auto simp: find_node_mixed_targets MINOR_def MAX_DEVICES_def rd p)
qed

section \<open>The completion routine\<close>

lemma one_inflight_state_eq:
  "run_event 8 (Ev_request 0 (read_at 7) True 11) mixed_state = Some one_inflight_state \<and>
   one_inflight_state = mixed_state
     \<lparr>io_hooks := (\<lambda>_. None)
        (11 \<mapsto> \<lparr>ih_table = 7, ih_target = 0, ih_rw = 0, ih_end_io = Caller_end_io 7,
                 ih_context = 0\<rparr>),
      tables := (tables mixed_state)(7 \<mapsto> mixed_targets\<lparr>pending := 1\<rparr>)\<rparr>"
proof -
  have rd: "b_rdev (read_at x) = 0" for x by (simp add: read_at_def)
  let ?s1 = "mixed_state
     \<lparr>io_hooks := (\<lambda>_. None)
        (11 \<mapsto> \<lparr>ih_table = 7, ih_target = 0, ih_rw = 0, ih_end_io = Caller_end_io 7,
                 ih_context = 0\<rparr>),
      tables := (tables mixed_state)(7 \<mapsto> mixed_targets\<lparr>pending := 1\<rparr>)\<rparr>"
  have a: "request 8 0 (read_at 7) True 11 mixed_state =
      Some (1, (read_at 1007)\<lparr>b_rdev := 2049, b_end_io := Dec_pending, b_private := 11\<rparr>, ?s1)"
    by (simp add: request_def request_map_def find_node_mixed_targets(1) rd MINOR_def
          MAX_DEVICES_def map_buffer_def mixed_state_dev upd_table_def)
       (simp add: mixed_targets_def linear_def linear_type_def read_at_def mixed_state_eq
          init_state_def upd_table_def)
  then have "run_event 8 (Ev_request 0 (read_at 7) True 11) mixed_state = Some ?s1" by simp
  then show ?thesis by (simp add: one_inflight_state_def)
qed

lemma inflight_state_eq:
  "run_event 8 (Ev_request 0 (read_at 150) True 12) one_inflight_state = Some inflight_state \<and>
   inflight_state = mixed_state
     \<lparr>io_hooks := (\<lambda>_. None)
        (11 \<mapsto> \<lparr>ih_table = 7, ih_target = 0, ih_rw = 0, ih_end_io = Caller_end_io 7,
                 ih_context = 0\<rparr>,
         12 \<mapsto> \<lparr>ih_table = 7, ih_target = 1, ih_rw = 0, ih_end_io = Caller_end_io 7,
                 ih_context = 0\<rparr>),
      tables := (tables mixed_state)(7 \<mapsto> mixed_targets\<lparr>pending := 2\<rparr>)\<rparr>"
proof -
  have rd: "b_rdev (read_at x) = 0" for x by (simp add: read_at_def)
  let ?s1 = "mixed_state
     \<lparr>io_hooks := (\<lambda>_. None)
        (11 \<mapsto> \<lparr>ih_table = 7, ih_target = 0, ih_rw = 0, ih_end_io = Caller_end_io 7,
                 ih_context = 0\<rparr>),
      tables := (tables mixed_state)(7 \<mapsto> mixed_targets\<lparr>pending := 1\<rparr>)\<rparr>"
  have s1: "one_inflight_state = ?s1" using one_inflight_state_eq by simp
  have f: "find_node 8 (mixed_targets\<lparr>pending := 1\<rparr>) (read_at 150) = Some 1"
    by (rule find_node_correct) (simp_all add: btree_ok_def mixed_targets_def span_def read_at_def)
  have b: "request 8 0 (read_at 150) True 12 ?s1 =
      Some (1, (read_at 5150)\<lparr>b_rdev := 2049, b_end_io := Dec_pending, b_private := 12\<rparr>,
        ?s1\<lparr>io_hooks := (io_hooks ?s1)
          (12 \<mapsto> \<lparr>ih_table = 7, ih_target = 1, ih_rw = 0, ih_end_io = Caller_end_io 7,
                 ih_context = 0\<rparr>),
          tables := (tables ?s1)(7 \<mapsto> mixed_targets\<lparr>pending := 2\<rparr>)\<rparr>)"
    by (simp add: request_def request_map_def f rd MINOR_def MAX_DEVICES_def
        map_buffer_def mixed_state_dev upd_table_def)
       (simp add: mixed_targets_def retry_type_def linear_type_def read_at_def upd_table_def)
  have "run_event 8 (Ev_request 0 (read_at 150) True 12) ?s1 =
      Some (?s1\<lparr>io_hooks := (io_hooks ?s1)
          (12 \<mapsto> \<lparr>ih_table = 7, ih_target = 1, ih_rw = 0, ih_end_io = Caller_end_io 7,
                 ih_context = 0\<rparr>),
          tables := (tables ?s1)(7 \<mapsto> mixed_targets\<lparr>pending := 2\<rparr>)\<rparr>)"
    by (simp only: run_event.simps b option.case prod.case)
  then show ?thesis unfolding inflight_state_def s1 by simp
qed

lemmas inflight_state_rec = inflight_state_eq [THEN conjunct2]

lemma dm_create_reachable:
  assumes "reachable K W s" "dm_create nm minor mem node s = (r, s')"
  shows "reachable K W s'"
proof (cases "minor \<ge> int MAX_DEVICES")
  case True
  then show ?thesis using assms by (simp add: dm_create_def)
next
  case False
  obtain a s1 where al: "alloc_dev minor mem s = (a, s1)" by (cases "alloc_dev minor mem s")
  have r1: "reachable K W s1" using reachable.create_alloc [OF assms(1) _ al] False by simp
  show ?thesis
  proof (cases a)
    case None
    then show ?thesis using assms(2) False al r1 by (simp add: dm_create_def)
  next
    case (Some md)
    obtain x s2 where rg: "register_device md node (upd_dev md (\<lambda>d. d\<lparr>name := nm\<rparr>) s1) = (x, s2)"
      by (cases "register_device md node (upd_dev md (\<lambda>d. d\<lparr>name := nm\<rparr>) s1)")
    have "s' = s2" using assms(2) False al Some rg by (simp add: dm_create_def split: sum.splits)
    then show ?thesis using reachable.create_register [OF r1 rg] by simp
  qed
qed

lemma reachable_inflight_state: "reachable 8 {} inflight_state"
proof -
  have "reachable 8 {} init_state" by (rule reachable.init) (simp add: init_state_def)
  then have "reachable 8 {} created_state"
    by (rule dm_create_reachable [where nm = "''vol0''" and minor = 0 and mem = True
          and node = True and r = "fst (dm_create ''vol0'' 0 True True init_state)"])
       (simp add: created_state_def)
  moreover have "dm_activate 0 7 created_state = Some (Inr (), mixed_state)"
    using dm_activate_ok [of created_state 7 mixed_targets 0
        "blank_dev\<lparr>name := ''vol0'', devfs_entry := True\<rparr>"]
    by (simp add: mixed_state_def created_state_eq init_state_def num_targets_def
        mixed_targets_def is_active_def blank_dev_def)
  ultimately have "reachable 8 {} mixed_state"
    using reachable.activate [of 8 "{}" created_state 0 7 "Inr ()" mixed_state] by simp
  then have "reachable 8 {} one_inflight_state"
    using one_inflight_state_eq by (blast intro: reachable.event)
  then show ?thesis using inflight_state_eq by (blast intro: reachable.event)
qed

lemma dec_pending_retry:
  assumes "io_hooks s (b_private bh) = Some ih" "tables s (ih_table ih) = Some tb"
    "ih_target ih < length (targets tb)"
    "tt_err (tgt_type (targets tb ! ih_target ih)) = Some err"
    "err bh (ih_rw ih) (tgt_private (targets tb ! ih_target ih)) \<noteq> 0"
  shows "dec_pending bh 0 s = Some (bh, s)"
  using assms by (simp add: dec_pending_def Let_def)

lemma dec_pending_done:
  assumes "io_hooks s (b_private bh) = Some ih" "tables s (ih_table ih) = Some tb"
    "ih_target ih < length (targets tb)"
    "\<not> (uptodate = 0 \<and>
        (\<exists>err. tt_err (tgt_type (targets tb ! ih_target ih)) = Some err \<and>
               err bh (ih_rw ih) (tgt_private (targets tb ! ih_target ih)) \<noteq> 0))"
  shows "dec_pending bh uptodate s =
     Some (bh\<lparr>b_end_io := ih_end_io ih, b_private := ih_context ih\<rparr>,
       s\<lparr>tables := (tables s)(ih_table ih \<mapsto> tb\<lparr>pending := pending tb - 1\<rparr>),
         io_hooks := (io_hooks s)(b_private bh := None),
         trace := trace s @ (if pending tb - 1 = 0 then [Wake_up (ih_table ih)] else []) @
           [Kmem_cache_free (b_private bh),
            End_io (ih_end_io ih) (bh\<lparr>b_end_io := ih_end_io ih, b_private := ih_context ih\<rparr>)
              uptodate]\<rparr>)"
proof -
  define c where "c \<longleftrightarrow> uptodate = 0 \<and>
      (case tt_err (tgt_type (targets tb ! ih_target ih)) of
         None \<Rightarrow> False
       | Some err \<Rightarrow> err bh (ih_rw ih) (tgt_private (targets tb ! ih_target ih)) \<noteq> 0)"
  have c: "\<not> c" unfolding c_def using assms(4) by (auto split: option.splits)
  have "dec_pending bh uptodate s =
      (if c then Some (bh, s)
       else
         let s1 = upd_table (ih_table ih) (\<lambda>t. t\<lparr>pending := pending t - 1\<rparr>) s;
             s2 = (if pending tb - 1 = 0 then emit (Wake_up (ih_table ih)) s1 else s1);
             bh1 = bh\<lparr>b_end_io := ih_end_io ih, b_private := ih_context ih\<rparr>;
             s3 = free_io_hook (b_private bh) s2
         in Some (bh1, emit (End_io (b_end_io bh1) bh1 uptodate) s3))"
    unfolding dec_pending_def c_def using assms(1,2,3) by (simp add: Let_def)
  then show ?thesis
    using c assms(2) by (simp add: Let_def upd_table_def free_io_hook_def emit_def)
qed

text \<open>
  Claim C7.  Let the private value of the request be a hook of a target in store.
  If the request is not up to date and the target type has an \<^verbatim>\<open>err\<close> that returns
  non-zero, \<^verbatim>\<open>dec_pending\<close> returns with the request and the whole state unchanged.
  Otherwise the pending count of the hook's table is one less and the wait queue of
  the table is woken when the count is now zero; the request has the completion
  routine and the private value that the hook had saved; the hook is freed, once; and
  the last thing called is that completion routine, with the request and the
  \<open>uptodate\<close> flag.  Nothing else of the state changes.
\<close>

theorem dec_pending_outcomes:
  assumes "io_hooks s (b_private bh) = Some ih" "tables s (ih_table ih) = Some tb"
    "ih_target ih < length (targets tb)"
  shows "(uptodate = 0 \<and>
            (\<exists>err. tt_err (tgt_type (targets tb ! ih_target ih)) = Some err \<and>
                   err bh (ih_rw ih) (tgt_private (targets tb ! ih_target ih)) \<noteq> 0) \<longrightarrow>
            dec_pending bh uptodate s = Some (bh, s)) \<and>
         (\<not> (uptodate = 0 \<and>
             (\<exists>err. tt_err (tgt_type (targets tb ! ih_target ih)) = Some err \<and>
                    err bh (ih_rw ih) (tgt_private (targets tb ! ih_target ih)) \<noteq> 0)) \<longrightarrow>
            (\<exists>s'. dec_pending bh uptodate s =
                    Some (bh\<lparr>b_end_io := ih_end_io ih, b_private := ih_context ih\<rparr>, s') \<and>
                  tables s' (ih_table ih) = Some (tb\<lparr>pending := pending tb - 1\<rparr>) \<and>
                  (\<forall>t. t \<noteq> ih_table ih \<longrightarrow> tables s' t = tables s t) \<and>
                  io_hooks s' (b_private bh) = None \<and>
                  (\<forall>h. h \<noteq> b_private bh \<longrightarrow> io_hooks s' h = io_hooks s h) \<and>
                  devs s' = devs s \<and>
                  trace s' = trace s @
                    (if pending tb - 1 = 0 then [Wake_up (ih_table ih)] else []) @
                    [Kmem_cache_free (b_private bh),
                     End_io (ih_end_io ih)
                       (bh\<lparr>b_end_io := ih_end_io ih, b_private := ih_context ih\<rparr>) uptodate]))"
proof (intro conjI impI)
  assume "uptodate = 0 \<and>
      (\<exists>err. tt_err (tgt_type (targets tb ! ih_target ih)) = Some err \<and>
             err bh (ih_rw ih) (tgt_private (targets tb ! ih_target ih)) \<noteq> 0)"
  then show "dec_pending bh uptodate s = Some (bh, s)"
    using dec_pending_retry [OF assms] by blast
next
  assume n: "\<not> (uptodate = 0 \<and>
      (\<exists>err. tt_err (tgt_type (targets tb ! ih_target ih)) = Some err \<and>
             err bh (ih_rw ih) (tgt_private (targets tb ! ih_target ih)) \<noteq> 0))"
  show "\<exists>s'. dec_pending bh uptodate s =
                    Some (bh\<lparr>b_end_io := ih_end_io ih, b_private := ih_context ih\<rparr>, s') \<and>
                  tables s' (ih_table ih) = Some (tb\<lparr>pending := pending tb - 1\<rparr>) \<and>
                  (\<forall>t. t \<noteq> ih_table ih \<longrightarrow> tables s' t = tables s t) \<and>
                  io_hooks s' (b_private bh) = None \<and>
                  (\<forall>h. h \<noteq> b_private bh \<longrightarrow> io_hooks s' h = io_hooks s h) \<and>
                  devs s' = devs s \<and>
                  trace s' = trace s @
                    (if pending tb - 1 = 0 then [Wake_up (ih_table ih)] else []) @
                    [Kmem_cache_free (b_private bh),
                     End_io (ih_end_io ih)
                       (bh\<lparr>b_end_io := ih_end_io ih, b_private := ih_context ih\<rparr>) uptodate]"
    unfolding dec_pending_done [OF assms n] by simp
qed

text \<open>
  In \<open>inflight_state\<close> two requests are in flight.  The one on the retrying target
  fails and is left alone; the other one completes, and the pending count is 1.
\<close>

theorem dec_pending_outcomes_witness:
  "dec_pending ((read_at 5150)\<lparr>b_rdev := 2049, b_end_io := Dec_pending, b_private := 12\<rparr>) 0
      inflight_state =
     Some ((read_at 5150)\<lparr>b_rdev := 2049, b_end_io := Dec_pending, b_private := 12\<rparr>,
           inflight_state) \<and>
   (\<exists>s'. dec_pending ((read_at 1007)\<lparr>b_rdev := 2049, b_end_io := Dec_pending, b_private := 11\<rparr>) 1
        inflight_state =
          Some ((read_at 1007)\<lparr>b_rdev := 2049, b_end_io := Caller_end_io 7, b_private := 0\<rparr>, s') \<and>
      map_option pending (tables s' 7) = Some 1 \<and> io_hooks s' 11 = None \<and>
      trace s' = trace inflight_state @
        [Kmem_cache_free 11,
         End_io (Caller_end_io 7)
           ((read_at 1007)\<lparr>b_rdev := 2049, b_end_io := Caller_end_io 7, b_private := 0\<rparr>) 1])"
proof -
  let ?b1 = "(read_at 1007)\<lparr>b_rdev := 2049, b_end_io := Dec_pending, b_private := 11\<rparr>"
  let ?b2 = "(read_at 5150)\<lparr>b_rdev := 2049, b_end_io := Dec_pending, b_private := 12\<rparr>"
  let ?h1 = "\<lparr>ih_table = 7, ih_target = 0, ih_rw = 0, ih_end_io = Caller_end_io 7,
                 ih_context = 0\<rparr>"
  let ?h2 = "\<lparr>ih_table = 7, ih_target = 1, ih_rw = 0, ih_end_io = Caller_end_io 7,
                 ih_context = 0\<rparr>"
  have h1: "io_hooks inflight_state (b_private ?b1) = Some ?h1"
    and h2: "io_hooks inflight_state (b_private ?b2) = Some ?h2"
    by (simp_all add: inflight_state_rec)
  have t1: "tables inflight_state (ih_table ?h1) = Some (mixed_targets\<lparr>pending := 2\<rparr>)"
    and t2: "tables inflight_state (ih_table ?h2) = Some (mixed_targets\<lparr>pending := 2\<rparr>)"
    by (simp_all add: inflight_state_rec)
  have l1: "ih_target ?h1 < length (targets (mixed_targets\<lparr>pending := 2\<rparr>))"
    and l2: "ih_target ?h2 < length (targets (mixed_targets\<lparr>pending := 2\<rparr>))"
    by (simp_all add: mixed_targets_def)
  have e: "tt_err (tgt_type (targets mixed_targets ! 0)) = None"
      "tt_err (tgt_type (targets mixed_targets ! Suc 0)) = Some (\<lambda>bh rw p. 1)"
    by (simp_all add: mixed_targets_def linear_def linear_type_def retry_type_def)
  have rd: "b_end_io (read_at x) = Caller_end_io 7" "b_private (read_at x) = 0" for x
    by (simp_all add: read_at_def)
  show ?thesis
    using dec_pending_outcomes [OF h2 t2 l2, of 0] dec_pending_outcomes [OF h1 t1 l1, of 1]
    by (auto simp: e)
qed

section \<open>The block-mapping query\<close>

text \<open>
  Claim C5 says that a successful query returns the resolved device number and the
  resolved sector.  \<^verbatim>\<open>dm_user_bmap\<close> stores both into \<^verbatim>\<open>lv_dev\<close>, the device number
  first.  Block 5 of the device of \<open>active_state\<close> is sector 10, which the linear target
  maps to sector 1010 of device 2049: the caller gets \<open>lv_dev = 505\<close>, the block of that
  sector, \<open>lv_block\<close> is still 5, and the device number 2049 is lost.
\<close>

theorem dm_user_bmap_loses_device:
  "dm_user_bmap 8 0 (Some \<lparr>lv_block = 5, lv_dev = 0\<rparr>) active_state =
     Some (Inr (), Some \<lparr>lv_block = 5, lv_dev = 505\<rparr>, active_state)"
proof -
  let ?bh = "\<lparr>b_blocknr = 5, b_dev = 0, b_rdev = 0, b_size = 1024, b_rsector = 10,
              b_end_io = No_end_io, b_private = 0\<rparr> :: 32 word buffer_head"
  have f: "find_node 8 two_targets ?bh = Some 0"
    by (rule find_node_correct [OF btree_ok_two_targets]) (simp_all add: two_targets_def)
  have d: "devs active_state 0 = Some \<lparr>name = ''vol0'', use_count = 0, state = {DM_ACTIVE},
      map_table = Some 5, deferred = [], devfs_entry = True\<rparr>"
    "tables active_state 5 = Some two_targets" "blksize_size active_state 0 = 1024"
    by (simp_all add: active_state_eq init_state_def)
  have t: "targets two_targets ! 0 = linear 1000" "targets two_targets \<noteq> []"
    by (simp_all add: two_targets_def)
  show ?thesis
    by (simp add: dm_user_bmap_def MINOR_def MAX_DEVICES_def d f t Let_def)
       (simp add: linear_def linear_type_def READ_def kdev_t_to_nr_def)
qed

section \<open>What the block layer's events leave alone\<close>

lemma ctl_of_emit [simp]: "ctl_of (emit a s) = ctl_of s"
  by (rule ext) (simp add: ctl_of_def emit_def)

lemma ctl_of_upd_dev:
  "(\<And>d. state (f d) = state d \<and> map_table (f d) = map_table d) \<Longrightarrow>
   ctl_of (upd_dev md f s) = ctl_of s"
  by (rule ext) (auto simp: ctl_of_def upd_dev_def map_option_case split: option.splits)

lemma ctl_of_devs: "devs s' = devs s \<Longrightarrow> ctl_of s' = ctl_of s"
  by (rule ext) (simp add: ctl_of_def)

lemma dm_blk_open_ctl: "ctl_of (snd (dm_blk_open i_rdev s)) = ctl_of s"
  by (simp add: dm_blk_open_def Let_def ctl_of_upd_dev split: option.splits)

lemma dm_blk_close_ctl: "ctl_of (snd (dm_blk_close i_rdev s)) = ctl_of s"
  by (simp add: dm_blk_close_def Let_def ctl_of_upd_dev split: option.splits)

lemma queue_io_ctl: "queue_io md bh rw di s = Some (r, s') \<Longrightarrow> ctl_of s' = ctl_of s"
  by (auto simp: queue_io_def ctl_of_upd_dev split: if_splits option.splits)

lemma map_buffer_devs:
  "map_buffer md bh rw leaf ih s = Some (r, bh1, s') \<Longrightarrow> devs s' = devs s"
  by (auto simp: map_buffer_def Let_def upd_table_def free_io_hook_def emit_def
      split: option.splits if_splits prod.splits)

lemma map_buffer_ctl:
  "map_buffer md bh rw leaf ih s = Some (r, bh1, s') \<Longrightarrow> ctl_of s' = ctl_of s"
  by (rule ctl_of_devs) (rule map_buffer_devs)

lemma request_map_ctl:
  "request_map K md bh rw ih s = Some (r, bh1, s') \<Longrightarrow> ctl_of s' = ctl_of s"
  by (auto simp: request_map_def buffer_IO_error_def split: option.splits if_splits
      dest!: map_buffer_ctl)

lemma request_ctl:
  assumes "request K rw bh di ih s = Some (r, bh1, s')"
  shows "ctl_of s' = ctl_of s"
proof -
  have q: "ctl_of s1 = ctl_of s" if "queue_io (MINOR (b_rdev bh)) bh rw di s = Some (x, s1)"
    for x s1 using that by (rule queue_io_ctl)
  show ?thesis
    using assms
    by (auto simp: request_def Let_def buffer_IO_error_def
        split: option.splits if_splits sum.splits dest!: q request_map_ctl)
qed

lemma dec_pending_devs: "dec_pending bh uptodate s = Some (bh1, s') \<Longrightarrow> devs s' = devs s"
  by (auto simp: dec_pending_def Let_def upd_table_def free_io_hook_def emit_def
      split: option.splits if_splits)

lemma dec_pending_ctl: "dec_pending bh uptodate s = Some (bh1, s') \<Longrightarrow> ctl_of s' = ctl_of s"
  by (rule ctl_of_devs) (rule dec_pending_devs)

lemma run_event_ctl: "run_event K e s = Some s' \<Longrightarrow> ctl_of s' = ctl_of s"
proof (cases e)
  case (Ev_request rw bh di ih)
  assume "run_event K e s = Some s'"
  then show ?thesis using Ev_request by (auto split: option.splits dest: request_ctl)
next
  case (Ev_end_io bh uptodate)
  assume "run_event K e s = Some s'"
  then show ?thesis
    using Ev_end_io by (auto split: option.splits if_splits dest!: dec_pending_ctl)
next
  case (Ev_open d)
  assume "run_event K e s = Some s'"
  then show ?thesis using Ev_open dm_blk_open_ctl [of d s] by auto
next
  case (Ev_close d)
  assume "run_event K e s = Some s'"
  then show ?thesis using Ev_close dm_blk_close_ctl [of d s] by auto
qed


section \<open>Suspending a device\<close>



lemma ctl_of_upd_dev_eq:
  "ctl_of (upd_dev md f s) =
     (ctl_of s)(md := map_option (\<lambda>d. (state (f d), map_table (f d))) (devs s md))"
  by (rule ext) (simp add: ctl_of_def upd_dev_def option.map_comp comp_def)


lemma inflight_state_dev:
  "devs inflight_state 0 = Some \<lparr>name = ''vol0'', use_count = 0, state = {DM_ACTIVE},
      map_table = Some 7, deferred = [], devfs_entry = True\<rparr>"
  by (simp add: inflight_state_rec mixed_state_dev)

lemma drain_schedule_run:
  "map_option (\<lambda>s. map_option deferred (devs s 0)) (dm_suspend 8 0 drain_schedule inflight_state) =
     Some (Some [\<lparr>di_bh = read_at 50, di_rw = 0\<rparr>])"
proof -
  have rd: "b_rdev (read_at x) = 0" "b_private (read_at x) = 0"
      "b_end_io (read_at x) = Caller_end_io 7" for x
    by (simp_all add: read_at_def)
  have tg: "length (targets mixed_targets) = 4"
      "tt_err (tgt_type (targets mixed_targets ! 0)) = None"
    by (simp_all add: mixed_targets_def linear_def linear_type_def)
  show ?thesis
    by (simp add: dm_suspend_def suspend_clear_def inflight_state_dev is_active_def
        drain_schedule_def inflight_1_def inflight_2_def request_def queue_io_def
        dec_pending_def upd_dev_def upd_table_def free_io_hook_def emit_def Let_def
        MINOR_def MAX_DEVICES_def inflight_state_rec mixed_state_dev rd tg)
qed


section \<open>Active and bound\<close>

lemma active_iff_bound_ctl:
  "active_iff_bound s \<longleftrightarrow>
     (\<forall>m st mp. ctl_of s m = Some (st, mp) \<longrightarrow> (DM_ACTIVE \<in> st \<longleftrightarrow> mp \<noteq> None))"
proof
  assume a: "active_iff_bound s"
  show "\<forall>m st mp. ctl_of s m = Some (st, mp) \<longrightarrow> (DM_ACTIVE \<in> st \<longleftrightarrow> mp \<noteq> None)"
  proof (intro allI impI)
    fix m st mp
    assume "ctl_of s m = Some (st, mp)"
    then obtain d where "devs s m = Some d" "state d = st" "map_table d = mp"
      by (auto simp: ctl_of_def)
    then show "DM_ACTIVE \<in> st \<longleftrightarrow> mp \<noteq> None"
      using a by (auto simp: active_iff_bound_def is_active_def)
  qed
next
  assume a: "\<forall>m st mp. ctl_of s m = Some (st, mp) \<longrightarrow> (DM_ACTIVE \<in> st \<longleftrightarrow> mp \<noteq> None)"
  show "active_iff_bound s"
    unfolding active_iff_bound_def
  proof (intro allI impI)
    fix m d
    assume "devs s m = Some d"
    then have "ctl_of s m = Some (state d, map_table d)" by (simp add: ctl_of_def)
    then show "is_active d \<longleftrightarrow> map_table d \<noteq> None"
      using a unfolding is_active_def by blast
  qed
qed

lemma window_state_eq:
  "suspend_clear 0 inflight_state = Some (True, window_state) \<and>
   window_state = upd_dev 0 (\<lambda>d. d\<lparr>state := state d - {DM_ACTIVE}\<rparr>) inflight_state"
  by (simp add: window_state_def suspend_clear_def inflight_state_dev is_active_def)

lemma window_state_dev:
  "devs window_state 0 = Some \<lparr>name = ''vol0'', use_count = 0, state = {},
      map_table = Some 7, deferred = [], devfs_entry = True\<rparr>"
  by (simp add: window_state_eq upd_dev_def inflight_state_dev)

lemma window_state_tables: "tables window_state 5 = Some two_targets"
  by (simp add: window_state_eq upd_dev_def inflight_state_rec mixed_state_eq init_state_def)

lemma reactivated_state_eq:
  "dm_activate 0 5 window_state = Some (Inr (), reactivated_state) \<and>
   devs reactivated_state 0 = Some \<lparr>name = ''vol0'', use_count = 0, state = {DM_ACTIVE},
      map_table = Some 5, deferred = [], devfs_entry = True\<rparr> \<and>
   tables reactivated_state = tables window_state"
proof -
  have n: "num_targets two_targets \<noteq> 0" by (simp add: num_targets_def two_targets_def)
  have a: "\<not> is_active \<lparr>name = ''vol0'', use_count = 0, state = {},
      map_table = Some 7, deferred = [], devfs_entry = True\<rparr>"
    by (simp add: is_active_def)
  obtain x where x: "dm_activate 0 5 window_state = Some (Inr (), x)"
    and d: "devs x 0 = Some \<lparr>name = ''vol0'', use_count = 0, state = {DM_ACTIVE},
      map_table = Some 5, deferred = [], devfs_entry = True\<rparr>"
    and t: "tables x = tables window_state"
    using dm_activate_ok [OF window_state_tables window_state_dev n a] by simp
  have "reactivated_state = x" using x by (simp add: reactivated_state_def)
  then show ?thesis using x d t by simp
qed

lemma raced_state_eq:
  "suspend_wait 8 0 [[]] reactivated_state = Some raced_state \<and>
   suspend_check 0 reactivated_state = Some (True, raced_state) \<and>
   raced_state = upd_dev 0 (\<lambda>d. d\<lparr>map_table := None\<rparr>) reactivated_state"
proof -
  have t: "tables reactivated_state 5 = Some two_targets"
    using reactivated_state_eq window_state_tables by simp
  have p: "pending two_targets = 0" by (simp add: two_targets_def)
  have w: "suspend_wait 8 0 [[]] reactivated_state =
      Some (upd_dev 0 (\<lambda>d. d\<lparr>map_table := None\<rparr>) reactivated_state)"
    using reactivated_state_eq t p by simp
  then have "raced_state = upd_dev 0 (\<lambda>d. d\<lparr>map_table := None\<rparr>) reactivated_state"
    by (simp add: raced_state_def)
  then show ?thesis using w reactivated_state_eq t p by (simp add: suspend_check_def)
qed

text \<open>
  Claim C3 says that at every instant a device is active if and only if it has a
  table bound.  \<^verbatim>\<open>dm_suspend\<close> clears the bit and then waits with the table still bound.
  The state \<open>inflight_state\<close> is reached by a create, an activate and two requests, which
  are in flight; after the first locked section of \<^verbatim>\<open>dm_suspend\<close> the device is not
  active and has table 7 bound, and with nothing completing \<^verbatim>\<open>dm_suspend\<close> does not
  return.  When another thread activates the device with table 5 during that wait,
  \<^verbatim>\<open>dm_suspend\<close> reads the pending count of table 5, which is zero, and returns: every
  call has returned, and the device is active without a table.  Last, inside its
  second locked section \<^verbatim>\<open>dm_deactivate\<close> stores \<^verbatim>\<open>md->map = 0\<close> before it clears the bit:
  between the two stores the device of \<open>active_state\<close> is active without a table.
\<close>

theorem suspend_window_counterexample:
  "reachable 8 {} inflight_state \<and>
   map_option fst (suspend_clear 0 inflight_state) = Some True \<and>
   ctl_of (snd (the (suspend_clear 0 inflight_state))) 0 = Some ({}, Some 7) \<and>
   \<not> active_iff_bound (snd (the (suspend_clear 0 inflight_state))) \<and>
   dm_suspend 8 0 [[]] inflight_state = None \<and>
   suspend_clear 0 inflight_state = Some (True, window_state) \<and>
   dm_activate 0 5 window_state = Some (Inr (), reactivated_state) \<and>
   suspend_wait 8 0 [[]] reactivated_state = Some raced_state \<and>
   ctl_of raced_state 0 = Some ({DM_ACTIVE}, None) \<and>
   \<not> active_iff_bound raced_state \<and>
   map_option fst (deactivate_commit 0 active_state) = Some (Inr ()) \<and>
   ctl_of (deactivate_map_cleared 0 active_state) 0 = Some ({DM_ACTIVE}, None)"
proof -
  have c: "suspend_clear 0 inflight_state =
      Some (True, upd_dev 0 (\<lambda>d. d\<lparr>state := state d - {DM_ACTIVE}\<rparr>) inflight_state)"
    by (simp add: suspend_clear_def inflight_state_dev is_active_def)
  have k: "ctl_of (snd (the (suspend_clear 0 inflight_state))) 0 = Some ({}, Some 7)"
    unfolding c by (simp add: ctl_of_upd_dev_eq inflight_state_dev)
  then have n: "\<not> active_iff_bound (snd (the (suspend_clear 0 inflight_state)))"
    unfolding active_iff_bound_ctl by fastforce
  have d: "dm_suspend 8 0 [[]] inflight_state = None"
    unfolding dm_suspend_def c
    by (simp add: upd_dev_def inflight_state_dev) (simp add: inflight_state_rec)
  have e: "raced_state = upd_dev 0 (\<lambda>d. d\<lparr>map_table := None\<rparr>) reactivated_state"
    using raced_state_eq by simp
  have r: "ctl_of raced_state 0 = Some ({DM_ACTIVE}, None)"
    unfolding e ctl_of_upd_dev_eq
    by (simp add: reactivated_state_eq [THEN conjunct2, THEN conjunct1])
  then have "\<not> active_iff_bound raced_state"
    unfolding active_iff_bound_ctl by fastforce
  moreover have "map_option fst (deactivate_commit 0 active_state) = Some (Inr ())"
    by (simp add: deactivate_commit_def active_state_eq)
  moreover have "ctl_of (deactivate_map_cleared 0 active_state) 0 = Some ({DM_ACTIVE}, None)"
    by (simp add: deactivate_map_cleared_def ctl_of_upd_dev_eq active_state_eq)
  ultimately show ?thesis
    using c k n d r reachable_inflight_state window_state_eq reactivated_state_eq raced_state_eq
    by simp
qed

subsection \<open>Whole calls are runs of locked sections\<close>

lemma suspend_wait_turn:
  "suspend_wait K md (evs # sched) s =
     (case run_events K evs s of
        None \<Rightarrow> None
      | Some s1 \<Rightarrow>
         (case suspend_check md s1 of
            None \<Rightarrow> None
          | Some (True, s2) \<Rightarrow> Some s2
          | Some (False, s2) \<Rightarrow> suspend_wait K md sched s1))"
  by (simp add: suspend_check_def split: option.splits)

lemma upd_dev_twice: "upd_dev md f (upd_dev md g s) = upd_dev md (\<lambda>d. f (g d)) s"
  by (simp add: upd_dev_def option.map_comp comp_def)

lemma dm_deactivate_sections:
  "dm_deactivate K md evs s =
     (case deactivate_check md s of
        None \<Rightarrow> None
      | Some (Inl e, s1) \<Rightarrow> Some (Inl e, s1)
      | Some (Inr u, s1) \<Rightarrow>
         (case run_events K evs s1 of
            None \<Rightarrow> None
          | Some s2 \<Rightarrow> deactivate_commit md s2))"
  by (simp add: dm_deactivate_def deactivate_check_def deactivate_commit_def
      deactivate_map_cleared_def upd_dev_twice split: option.splits)

lemma run_events_reachable:
  "reachable K W s \<Longrightarrow> run_events K es s = Some s' \<Longrightarrow> reachable K W s'"
proof (induction es arbitrary: s)
  case Nil
  then show ?case by simp
next
  case (Cons e es)
  then obtain s1 where e: "run_event K e s = Some s1" and es: "run_events K es s1 = Some s'"
    by (auto split: option.splits)
  have "reachable K W s1" using Cons.prems(1) e by (rule reachable.event)
  then show ?case using es by (rule Cons.IH)
qed

lemma suspend_wait_reachable:
  "reachable K W s \<Longrightarrow> md \<in> W \<Longrightarrow> suspend_wait K md sched s = Some s' \<Longrightarrow>
   reachable K (W - {md}) s'"
proof (induction sched arbitrary: s)
  case Nil
  then show ?case by simp
next
  case (Cons evs sched)
  from Cons.prems(3) obtain s1 b s2 where ev: "run_events K evs s = Some s1"
    and ck: "suspend_check md s1 = Some (b, s2)"
    unfolding suspend_wait_turn by (auto split: option.splits)
  have r1: "reachable K W s1" using Cons.prems(1) ev by (rule run_events_reachable)
  show ?case
  proof (cases b)
    case True
    then have "s' = s2" using Cons.prems(3) ev ck unfolding suspend_wait_turn by simp
    then show ?thesis using reachable.suspend_end [OF r1 Cons.prems(2)] ck True by simp
  next
    case False
    then have "suspend_wait K md sched s1 = Some s'"
      using Cons.prems(3) ev ck unfolding suspend_wait_turn by simp
    then show ?thesis using Cons.IH [OF r1 Cons.prems(2)] by simp
  qed
qed

lemma dm_suspend_reachable:
  assumes "reachable K W s" "md \<notin> W" "dm_suspend K md sched s = Some s'"
  shows "reachable K W s'"
proof -
  from assms(3) obtain b s1 where c: "suspend_clear md s = Some (b, s1)"
    by (auto simp: dm_suspend_def split: option.splits)
  show ?thesis
  proof (cases b)
    case False
    then have "s1 = s" using c by (auto simp: suspend_clear_def split: option.splits if_splits)
    then show ?thesis using assms c False by (simp add: dm_suspend_def)
  next
    case True
    then have r1: "reachable K (insert md W) s1"
      using reachable.suspend_begin [OF assms(1)] c by simp
    have "suspend_wait K md sched s1 = Some s'" using assms(3) c True by (simp add: dm_suspend_def)
    then have "reachable K (insert md W - {md}) s'"
      by (rule suspend_wait_reachable [OF r1 insertI1])
    then show ?thesis using assms(2) by simp
  qed
qed

lemma dm_deactivate_reachable:
  assumes "reachable K W s" "md \<notin> W" "dm_deactivate K md evs s = Some (r, s')"
  shows "reachable K W s'"
proof -
  from assms(3) obtain r1 s1 where c: "deactivate_check md s = Some (r1, s1)"
    unfolding dm_deactivate_sections by (auto split: option.splits)
  have r1: "reachable K W s1" using assms(1) c by (rule reachable.deactivate_begin)
  show ?thesis
  proof (cases r1)
    case (Inl e)
    then show ?thesis using assms(3) c r1 unfolding dm_deactivate_sections by simp
  next
    case (Inr u)
    then obtain s2 where ev: "run_events K evs s1 = Some s2"
      and cm: "deactivate_commit md s2 = Some (r, s')"
      using assms(3) c unfolding dm_deactivate_sections by (auto split: option.splits)
    have "reachable K W s2" using r1 ev by (rule run_events_reachable)
    then show ?thesis using assms(2) cm by (rule reachable.deactivate_end)
  qed
qed

subsection \<open>The invariant\<close>

lemma ctl_ok_upd:
  assumes "ctl_ok W c" "md \<notin> W"
    "x = None \<or> (\<exists>st. x = Some (st - {DM_ACTIVE}, None)) \<or>
     (\<exists>st t. x = Some (insert DM_ACTIVE st, Some t))"
  shows "ctl_ok W (c(md := x))"
  using assms unfolding ctl_ok_def by auto

lemma ctl_ok_begin:
  assumes "ctl_ok W c" "c md = Some (st, mp)" "DM_ACTIVE \<in> st"
  shows "ctl_ok (insert md W) (c(md := Some (st - {DM_ACTIVE}, mp)))"
proof -
  have w: "md \<notin> W" using assms unfolding ctl_ok_def by fastforce
  then have "mp \<noteq> None" using assms unfolding ctl_ok_def by blast
  then show ?thesis using assms(1) w unfolding ctl_ok_def by auto
qed

lemma ctl_ok_end:
  assumes "ctl_ok W c" "md \<in> W" "c md = Some (st, mp)"
  shows "ctl_ok (W - {md}) (c(md := Some (st, None)))"
proof -
  have "DM_ACTIVE \<notin> st" using assms unfolding ctl_ok_def by fastforce
  then show ?thesis using assms(1) unfolding ctl_ok_def by auto
qed

lemma ctl_of_new_dev:
  "ctl_of (s\<lparr>devs := (devs s)(m \<mapsto> blank_dev)\<rparr>) = (ctl_of s)(m := Some ({} - {DM_ACTIVE}, None))"
  by (rule ext) (simp add: ctl_of_def blank_dev_def)

lemma find_free: "find (\<lambda>i. devs s i = None) xs = Some i \<Longrightarrow> devs s i = None"
  by (induction xs) (auto split: if_splits)

lemma alloc_dev_cases:
  assumes "alloc_dev minor mem s = (r, s1)" "minor < int MAX_DEVICES"
  shows "(r = None \<and> s1 = s) \<or>
         (\<exists>m. r = Some m \<and> devs s m = None \<and> s1 = s\<lparr>devs := (devs s)(m \<mapsto> blank_dev)\<rparr>)"
proof -
  define m where "m = (if minor < 0 then any_old_dev s else specific_dev minor s)"
  have free: "devs s (nat m) = None" if "\<not> m < 0"
  proof (cases "minor < 0")
    case True
    then have m: "m = any_old_dev s" by (simp add: m_def)
    show ?thesis
    proof (cases "find (\<lambda>i. devs s i = None) [0..<MAX_DEVICES]")
      case None
      then have "m = - 1" unfolding m any_old_dev_def by simp
      then show ?thesis using that by simp
    next
      case (Some i)
      then have "m = int i" unfolding m any_old_dev_def by simp
      then show ?thesis using find_free [OF Some] by simp
    qed
  next
    case False
    then show ?thesis
      using that assms(2) by (auto simp: m_def specific_dev_def split: if_splits)
  qed
  have "alloc_dev minor mem s =
      (if \<not> mem \<or> m < 0 then (None, s)
       else (Some (nat m), s\<lparr>devs := (devs s)(nat m \<mapsto> blank_dev)\<rparr>))"
    by (simp add: alloc_dev_def Let_def m_def)
  then show ?thesis using assms(1) free by (auto split: if_splits)
qed

lemma register_device_ctl: "ctl_of (snd (register_device md node s)) = ctl_of s"
  by (simp add: register_device_def Let_def ctl_of_upd_dev)

lemma ctl_ok_free: "ctl_ok W (ctl_of s) \<Longrightarrow> devs s m = None \<Longrightarrow> m \<notin> W"
  unfolding ctl_ok_def by (fastforce simp: ctl_of_def)

lemma alloc_dev_inv:
  assumes "alloc_dev minor mem s = (a, s')" "minor < int MAX_DEVICES" "ctl_ok W (ctl_of s)"
  shows "ctl_ok W (ctl_of s')"
proof (cases a)
  case None
  then have "s' = s" using alloc_dev_cases [OF assms(1,2)] by simp
  then show ?thesis using assms(3) by simp
next
  case (Some m)
  then have free: "devs s m = None" and s': "s' = s\<lparr>devs := (devs s)(m \<mapsto> blank_dev)\<rparr>"
    using alloc_dev_cases [OF assms(1,2)] by simp_all
  have c: "ctl_of s' = (ctl_of s)(m := Some ({} - {DM_ACTIVE}, None))"
    using s' ctl_of_new_dev [of s m] by simp
  show ?thesis
    unfolding c by (rule ctl_ok_upd [OF assms(3) ctl_ok_free [OF assms(3) free]]) blast
qed

lemma register_section_ctl:
  "register_device md node (upd_dev md (\<lambda>d. d\<lparr>name := nm\<rparr>) s) = (r, s') \<Longrightarrow>
   ctl_of s' = ctl_of s"
  using register_device_ctl [of md node "upd_dev md (\<lambda>d. d\<lparr>name := nm\<rparr>) s"]
  by (simp add: ctl_of_upd_dev)

lemma dm_activate_inv:
  fixes s :: "('a::len) word dm"
  assumes "dm_activate md t s = Some (r, s')" "ctl_ok W (ctl_of s)" "md \<notin> W"
  shows "ctl_ok W (ctl_of s')"
proof -
  obtain tb where tb: "tables s t = Some tb"
    using assms(1) by (auto simp: dm_activate_def split: option.splits)
  show ?thesis
  proof (cases "num_targets tb = 0")
    case True
    then show ?thesis using assms tb by (simp add: dm_activate_def)
  next
    case False
    then obtain d where d: "devs s md = Some d"
      using assms(1) tb by (auto simp: dm_activate_def split: option.splits)
    show ?thesis
    proof (cases "is_active d")
      case True
      then show ?thesis using assms tb d False by (simp add: dm_activate_def)
    next
      case na: False
      have c: "ctl_of s' = (ctl_of s)(md := Some (insert DM_ACTIVE (state d), Some t))"
        using assms(1) unfolding dm_activate_ok [OF tb d False na]
        by (auto simp: ctl_of_def)
      show ?thesis unfolding c by (rule ctl_ok_upd [OF assms(2,3)]) blast
    qed
  qed
qed

lemma suspend_clear_inv:
  assumes "suspend_clear md s = Some (True, s')" "ctl_ok W (ctl_of s)"
  shows "ctl_ok (insert md W) (ctl_of s')"
proof -
  from assms(1) obtain d where d: "devs s md = Some d" "is_active d"
    and s': "s' = upd_dev md (\<lambda>d. d\<lparr>state := state d - {DM_ACTIVE}\<rparr>) s"
    by (auto simp: suspend_clear_def split: option.splits if_splits)
  have c: "ctl_of s' = (ctl_of s)(md := Some (state d - {DM_ACTIVE}, map_table d))"
    using s' d by (simp add: ctl_of_upd_dev_eq)
  have "ctl_of s md = Some (state d, map_table d)" using d by (simp add: ctl_of_def)
  then show ?thesis
    unfolding c using d(2) by (intro ctl_ok_begin [OF assms(2)]) (simp_all add: is_active_def)
qed

lemma suspend_check_inv:
  assumes "suspend_check md s = Some (True, s')" "ctl_ok W (ctl_of s)" "md \<in> W"
  shows "ctl_ok (W - {md}) (ctl_of s')"
proof -
  from assms(1) obtain d where d: "devs s md = Some d"
    and s': "s' = upd_dev md (\<lambda>d. d\<lparr>map_table := None\<rparr>) s"
    by (auto simp: suspend_check_def split: option.splits if_splits)
  have c: "ctl_of s' = (ctl_of s)(md := Some (state d, None))"
    using s' d by (simp add: ctl_of_upd_dev_eq)
  have "ctl_of s md = Some (state d, map_table d)" using d by (simp add: ctl_of_def)
  then show ?thesis unfolding c by (rule ctl_ok_end [OF assms(2,3)])
qed

lemma deactivate_check_ctl: "deactivate_check md s = Some (r, s') \<Longrightarrow> ctl_of s' = ctl_of s"
  by (auto simp: deactivate_check_def split: option.splits if_splits)

lemma deactivate_commit_inv:
  assumes "deactivate_commit md s = Some (r, s')" "ctl_ok W (ctl_of s)" "md \<notin> W"
  shows "ctl_ok W (ctl_of s')"
proof -
  obtain d where d: "devs s md = Some d"
    using assms(1) by (auto simp: deactivate_commit_def split: option.splits)
  show ?thesis
  proof (cases "use_count d \<noteq> 0")
    case True
    then show ?thesis using assms d by (simp add: deactivate_commit_def)
  next
    case False
    then have "s' = upd_dev md (\<lambda>d. d\<lparr>map_table := None, state := state d - {DM_ACTIVE}\<rparr>) s"
      using assms(1) d by (simp add: deactivate_commit_def deactivate_map_cleared_def upd_dev_twice)
    then have c: "ctl_of s' = (ctl_of s)(md := Some (state d - {DM_ACTIVE}, None))"
      using d by (simp add: ctl_of_upd_dev_eq)
    show ?thesis unfolding c by (rule ctl_ok_upd [OF assms(2,3)]) blast
  qed
qed

lemma dm_remove_inv:
  assumes "dm_remove md s = Some (r, s')" "ctl_ok W (ctl_of s)" "md \<notin> W"
  shows "ctl_ok W (ctl_of s')"
proof -
  obtain d where d: "devs s md = Some d"
    using assms(1) by (auto simp: dm_remove_def split: option.splits)
  show ?thesis
  proof (cases "use_count d \<noteq> 0")
    case True
    then show ?thesis using assms d by (simp add: dm_remove_def)
  next
    case False
    then have "s' = (emit (Devfs_unregister md) s)\<lparr>devs := (devs s)(md := None)\<rparr>"
      using assms(1) d by (simp add: dm_remove_def unregister_device_def emit_def)
    then have c: "ctl_of s' = (ctl_of s)(md := None)"
      by (auto simp: ctl_of_def emit_def)
    show ?thesis unfolding c by (rule ctl_ok_upd [OF assms(2,3)]) blast
  qed
qed

lemma reachable_ctl_ok: "reachable K W s \<Longrightarrow> ctl_ok W (ctl_of s)"
proof (induction rule: reachable.induct)
  case (init s)
  then show ?case by (simp add: ctl_ok_def ctl_of_def)
next
  case (create_alloc W s minor mem a s')
  then show ?case using alloc_dev_inv by blast
next
  case (create_register W s md node nm r s')
  then show ?case using register_section_ctl by metis
next
  case (activate W s md t ra s')
  then show ?case using dm_activate_inv by blast
next
  case (suspend_begin W s md s')
  then show ?case using suspend_clear_inv by blast
next
  case (suspend_end W s md s')
  then show ?case using suspend_check_inv by blast
next
  case (deactivate_begin W s md ra s')
  then show ?case using deactivate_check_ctl by metis
next
  case (deactivate_end W s md ra s')
  then show ?case using deactivate_commit_inv by blast
next
  case (remove W s md ra s')
  then show ?case using dm_remove_inv by blast
next
  case (event W s e s')
  then show ?case using run_event_ctl by metis
qed

text \<open>
  Claim C3, amended.  Take any interleaving of the locked sections of \<^verbatim>\<open>dm_create\<close>,
  \<^verbatim>\<open>dm_activate\<close>, \<^verbatim>\<open>dm_suspend\<close>, \<^verbatim>\<open>dm_deactivate\<close> and \<^verbatim>\<open>dm_remove\<close> and of requests,
  completions, opens and closes, called by any threads on a driver that starts without
  devices, in which no \<^verbatim>\<open>dm_activate\<close>, no second section of \<^verbatim>\<open>dm_deactivate\<close> and no
  \<^verbatim>\<open>dm_remove\<close> runs on a device while a \<^verbatim>\<open>dm_suspend\<close> waits on that device.  In every
  state between two sections:

  \<^item> a device on which a \<^verbatim>\<open>dm_suspend\<close> waits is not active and has a table bound;
  \<^item> every other device is active if and only if it has a table bound;
  \<^item> the devices on which a \<^verbatim>\<open>dm_suspend\<close> waits are in their slots.

  So when no \<^verbatim>\<open>dm_suspend\<close> waits, every device is active if and only if it has a table
  bound.
\<close>

theorem active_iff_bound_unless_suspending:
  assumes "reachable K W s"
  shows "(\<forall>m d. devs s m = Some d \<longrightarrow>
            (if m \<in> W then \<not> is_active d \<and> map_table d \<noteq> None
             else is_active d \<longleftrightarrow> map_table d \<noteq> None)) \<and>
         (\<forall>m \<in> W. devs s m \<noteq> None) \<and>
         (W = {} \<longrightarrow> active_iff_bound s)"
proof -
  have ok: "ctl_ok W (ctl_of s)" using assms by (rule reachable_ctl_ok)
  have a: "if m \<in> W then \<not> is_active d \<and> map_table d \<noteq> None
           else is_active d \<longleftrightarrow> map_table d \<noteq> None" if "devs s m = Some d" for m d
  proof -
    have "ctl_of s m = Some (state d, map_table d)" using that by (simp add: ctl_of_def)
    then show ?thesis using ok unfolding ctl_ok_def is_active_def by fastforce
  qed
  have b: "devs s m \<noteq> None" if "m \<in> W" for m
    using ok that unfolding ctl_ok_def by (fastforce simp: ctl_of_def)
  have c: "active_iff_bound s" if "W = {}"
    unfolding active_iff_bound_def using a that by auto
  show ?thesis using a b c by blast
qed

theorem active_iff_bound_unless_suspending_witness:
  "reachable 8 {} inflight_state \<and> active_iff_bound inflight_state \<and>
   map_option (\<lambda>d. (is_active d, map_table d)) (devs inflight_state 0) = Some (True, Some 7) \<and>
   reachable 8 {0} window_state \<and>
   map_option (\<lambda>d. (is_active d, map_table d)) (devs window_state 0) = Some (False, Some 7) \<and>
   (\<exists>s'. dm_suspend 8 0 drain_schedule inflight_state = Some s' \<and> reachable 8 {} s' \<and>
         active_iff_bound s')"
proof -
  let ?d1 = "\<lparr>name = ''vol0'', use_count = 0, state = {},
      map_table = Some 7, deferred = [], devfs_entry = True\<rparr> :: 32 word mapped_device"
  note t = active_iff_bound_unless_suspending [OF reachable_inflight_state]
  have w: "reachable 8 {0} window_state"
    using reachable.suspend_begin [OF reachable_inflight_state, of 0 window_state]
      window_state_eq by simp
  note u = active_iff_bound_unless_suspending [OF w]
  have "\<not> is_active ?d1 \<and> map_table ?d1 \<noteq> None"
    using u [THEN conjunct1, rule_format, OF window_state_dev] by simp
  moreover obtain s' where s': "dm_suspend 8 0 drain_schedule inflight_state = Some s'"
    using drain_schedule_run by auto
  have r: "reachable 8 {} s'"
    using dm_suspend_reachable [OF reachable_inflight_state _ s'] by simp
  have "active_iff_bound s'"
    using active_iff_bound_unless_suspending [OF r] by blast
  ultimately show ?thesis
    using t [THEN conjunct2, THEN conjunct2] reachable_inflight_state w s' r
    by (simp add: inflight_state_dev window_state_dev is_active_def)
qed

end
